theory Spec2Isabelle
  imports Main "HOL-Library.Word"
begin

unbundle bit_operations_syntax

section \<open>Data model\<close>

text \<open>
  The string routines of \<^verbatim>\<open>src/utf8.c\<close> walk a byte buffer (\<^verbatim>\<open>const uint8_t *str\<close> with
  an explicit size) with a cursor \<^verbatim>\<open>ptr\<close> and stop when \<^verbatim>\<open>ptr == end\<close>. A buffer is a
  list of bytes, the cursor an index into it and \<^verbatim>\<open>end\<close> the length of the list.
\<close>

type_synonym byte = "8 word"
type_synonym code_point = "32 word"

text \<open>
  Reading \<^verbatim>\<open>*ptr\<close>. Inside the buffer this is the byte stored there. The data of a
  CHARSXP is followed by a NUL terminator; a read at or after the end gives 0 here.
\<close>

definition byte_at :: "byte list \<Rightarrow> nat \<Rightarrow> byte" where
  "byte_at bs i = (if i < length bs then bs ! i else 0)"

text \<open>
  Modelled from the spec: the width classes of \<^verbatim>\<open>corpus/src/unicode.h\<close>, which is not
  among the sources. The spec lists six classes.
\<close>

datatype charwidth =
    CHARWIDTH_OTHER
  | CHARWIDTH_IGNORABLE
  | CHARWIDTH_NARROW
  | CHARWIDTH_AMBIGUOUS
  | CHARWIDTH_WIDE
  | CHARWIDTH_EMOJI

text \<open>
  The classifier \<^verbatim>\<open>corpus_unicode_charwidth\<close> is a table lookup whose table is not among
  the sources. Every routine below takes it as a parameter \<open>cw\<close>, and the theorems hold for
  every classifier.
\<close>

type_synonym classifier = "code_point \<Rightarrow> charwidth"

text \<open>
  Modelled from the spec: a classifier holding only the classes that the spec states for
  its example code points (an ASCII letter is NARROW, U+4E2D is WIDE, U+1F600 is EMOJI,
  U+200B is IGNORABLE); every other code point is OTHER. It is used to run the routines on
  concrete buffers.
\<close>

definition example_charwidth :: classifier where
  "example_charwidth c =
     (if c = 0x4E2D then CHARWIDTH_WIDE
      else if c = 0x1F600 then CHARWIDTH_EMOJI
      else if c = 0x200B then CHARWIDTH_IGNORABLE
      else if 0x20 \<le> c \<and> c \<le> 0x7E then CHARWIDTH_NARROW
      else CHARWIDTH_OTHER)"

datatype error =
    SizeOverflow    \<comment> \<open>\<^verbatim>\<open>error("encoded character string size exceeds maximum (2^31-1 bytes)")\<close>\<close>
  | TypeMismatch    \<comment> \<open>\<^verbatim>\<open>error("argument is not a character vector")\<close>\<close>
  | CursorPastEnd   \<comment> \<open>the cursor has stepped over \<^verbatim>\<open>end\<close>: the loop test \<^verbatim>\<open>ptr != end\<close> stays
                        true and the C loop goes on reading outside the buffer\<close>

definition INT_MAX :: int where
  "INT_MAX = 2147483647"

section \<open>The UTF-8 helpers of the corpus library\<close>

text \<open>
  Modelled from the spec: the macro \<^verbatim>\<open>CORPUS_UTF8_TAIL_LEN\<close> (\<^verbatim>\<open>corpus/src/unicode.h\<close>, not
  among the sources): the number of continuation bytes that the leading byte of a unit
  run announces. Leading bytes \<^verbatim>\<open>0xxxxxxx\<close> announce none, \<^verbatim>\<open>110xxxxx\<close> one, \<^verbatim>\<open>1110xxxx\<close>
  two, and every other byte three.
\<close>

definition UTF8_TAIL_LEN :: "byte \<Rightarrow> nat" where
  "UTF8_TAIL_LEN x =
     (if x < 0x80 then 0
      else if 0xC0 \<le> x \<and> x < 0xE0 then 1
      else if 0xE0 \<le> x \<and> x < 0xF0 then 2
      else 3)"

text \<open>
  Modelled from the spec: \<^verbatim>\<open>corpus_decode_utf8(&ptr, &code)\<close>, which is not among the
  sources. It receives the cursor only (no end pointer), assumes that the run at the
  cursor is valid, steps the cursor over the leading byte and the continuation bytes it
  announces, and returns the code point: the payload bits of the leading byte followed by
  the low six bits of each continuation byte. The result is the new cursor and the code.
\<close>

definition decode_utf8 :: "byte list \<Rightarrow> nat \<Rightarrow> nat \<times> code_point" where
  "decode_utf8 bs ptr =
     (let ch = byte_at bs ptr;
          nc = UTF8_TAIL_LEN ch;
          lead = (if nc = 0 then ucast ch
                  else if nc = 1 then ucast (ch AND 0x1F)
                  else if nc = 2 then ucast (ch AND 0x0F)
                  else ucast (ch AND 0x07))
      in (ptr + 1 + nc,
          foldl (\<lambda>code i. push_bit 6 code + ucast (byte_at bs i AND 0x3F))
            lead [ptr + 1 ..< ptr + 1 + nc]))"

definition is_continuation :: "byte \<Rightarrow> bool" where
  "is_continuation b = (0x80 \<le> b \<and> b < 0xC0)"

text \<open>
  Modelled from the spec: \<^verbatim>\<open>corpus_scan_utf8(&ptr, end)\<close>, which is not among the sources.
  It accepts one well-formed unit run at the cursor and then leaves the cursor just after
  the run (\<open>Some\<close> of the new cursor); it fails (\<open>None\<close>) on a lone continuation byte, on a
  leading byte of a 5- or 6-byte form, on a run cut off by the end of the buffer, on a
  missing or malformed continuation byte, on an overlong form, and on a code point that is
  a surrogate or lies above U+10FFFF. The callers in \<^verbatim>\<open>utf8.c\<close> never use the cursor that a
  failed scan leaves.
\<close>

definition scan_utf8 :: "byte list \<Rightarrow> nat \<Rightarrow> nat option" where
  "scan_utf8 bs ptr =
     (let ch = byte_at bs ptr;
          nc = UTF8_TAIL_LEN ch;
          code = snd (decode_utf8 bs ptr)
      in if length bs \<le> ptr then None
         else if ch < 0x80 then Some (ptr + 1)
         else if ch < 0xC0 \<or> 0xF8 \<le> ch then None
         else if length bs < ptr + 1 + nc then None
         else if \<not> list_all (\<lambda>i. is_continuation (byte_at bs i)) [ptr + 1 ..< ptr + 1 + nc]
           then None
         else if (nc = 1 \<and> code < 0x80) \<or> (nc = 2 \<and> code < 0x800)
                 \<or> (nc = 3 \<and> code < 0x10000) then None
         else if 0x10FFFF < code \<or> (0xD800 \<le> code \<and> code \<le> 0xDFFF) then None
         else Some (ptr + 1 + nc))"

text \<open>
  \<^verbatim>\<open>isprint\<close> of \<^verbatim>\<open><ctype.h>\<close> on a code below 0x80: the printing characters are
  0x20 (space) to 0x7E (tilde).
\<close>

definition isprint :: "byte \<Rightarrow> bool" where
  "isprint c = (0x20 \<le> c \<and> c \<le> 0x7E)"

text \<open>The seven control characters with a shorthand escape (BEL, BS, FF, LF, CR, HT, VT), each with the letter written after the backslash.\<close>

definition control_letter :: "byte \<Rightarrow> byte option" where
  "control_letter c =
     (if c = 0x07 then Some 0x61        \<comment> \<open>letter a\<close>
      else if c = 0x08 then Some 0x62   \<comment> \<open>letter b\<close>
      else if c = 0x0C then Some 0x66   \<comment> \<open>letter f\<close>
      else if c = 0x0A then Some 0x6E   \<comment> \<open>letter n\<close>
      else if c = 0x0D then Some 0x72   \<comment> \<open>letter r\<close>
      else if c = 0x09 then Some 0x74   \<comment> \<open>letter t\<close>
      else if c = 0x0B then Some 0x76   \<comment> \<open>letter v\<close>
      else None)"

section \<open>\<^verbatim>\<open>charsxp_width\<close>\<close>

text \<open>
  The loop of \<^verbatim>\<open>charsxp_width\<close>: \<^verbatim>\<open>while (ptr != end) { corpus_decode_utf8(&ptr, &code); ... }\<close>.
  The accumulator \<^verbatim>\<open>width\<close> is a C \<^verbatim>\<open>int\<close>, a 32-bit word whose addition wraps; \<open>sint\<close>
  reads the returned value.
\<close>

function charsxp_width_loop :: "classifier \<Rightarrow> byte list \<Rightarrow> nat \<Rightarrow> 32 word \<Rightarrow> error + 32 word" where
  "charsxp_width_loop cw bs ptr width =
     (if ptr = length bs then Inr width
      else if length bs < ptr then Inl CursorPastEnd
      else (case decode_utf8 bs ptr of (ptr', code) \<Rightarrow>
        (case cw code of
           CHARWIDTH_NARROW \<Rightarrow> charsxp_width_loop cw bs ptr' (width + 1)
         | CHARWIDTH_AMBIGUOUS \<Rightarrow> charsxp_width_loop cw bs ptr' (width + 1)
         | CHARWIDTH_WIDE \<Rightarrow> charsxp_width_loop cw bs ptr' (width + 2)
         | CHARWIDTH_EMOJI \<Rightarrow> charsxp_width_loop cw bs ptr' (width + 2)
         | _ \<Rightarrow> charsxp_width_loop cw bs ptr' width)))"
  by pat_completeness auto
termination
  by (relation "measure (\<lambda>(cw, bs, ptr, width). Suc (length bs) - ptr)")
     (auto simp: decode_utf8_def Let_def)

definition charsxp_width :: "classifier \<Rightarrow> byte list \<Rightarrow> error + 32 word" where
  "charsxp_width cw bs = charsxp_width_loop cw bs 0 0"

section \<open>\<^verbatim>\<open>is_valid\<close>\<close>

text \<open>
  \<^verbatim>\<open>is_valid\<close> returns the flag \<^verbatim>\<open>valid\<close> and stores the offset of the failing run through
  \<^verbatim>\<open>errptr\<close> only when the flag is 0: the second component is \<open>Some\<close> of the stored offset,
  or \<open>None\<close> when nothing is stored.
\<close>

function is_valid_loop :: "byte list \<Rightarrow> nat \<Rightarrow> bool \<times> nat option" where
  "is_valid_loop bs ptr =
     (if ptr \<noteq> length bs then
        (case scan_utf8 bs ptr of
           None \<Rightarrow> (False, Some ptr)
         | Some ptr' \<Rightarrow> is_valid_loop bs ptr')
      else (True, None))"
  by pat_completeness auto
termination
  by (relation "measure (\<lambda>(bs, ptr). length bs - ptr)")
     (auto simp: scan_utf8_def Let_def split: if_splits)

definition is_valid :: "byte list \<Rightarrow> bool \<times> nat option" where
  "is_valid bs = is_valid_loop bs 0"

section \<open>Formatted output\<close>

text \<open>
  \<^verbatim>\<open>sprintf\<close> with the conversions \<^verbatim>\<open>%02x\<close>, \<^verbatim>\<open>%04x\<close> and \<^verbatim>\<open>%08x\<close>: the value in lowercase
  hexadecimal, with as many digits as the value needs, padded on the left with zeros up to
  the minimum field width. Characters are bytes: 0x30 is the digit 0, 0x61 the letter a,
  0x5C the backslash, 0x78 the letter x, 0x75 the letter u and 0x55 the letter U.
  \<^verbatim>\<open>sprintf\<close> stores the characters and then a terminating NUL: each function below gives
  all the bytes that the call stores, the NUL included (5, 7 and 11 bytes). The callers
  step \<^verbatim>\<open>dst\<close> over the characters only (\<^verbatim>\<open>dst += 4\<close>, \<^verbatim>\<open>dst += 6\<close>, \<^verbatim>\<open>dst += 10\<close>).
\<close>

definition hex_digit :: "nat \<Rightarrow> byte" where
  "hex_digit d = (if d < 10 then 0x30 + of_nat d else 0x61 + of_nat (d - 10))"

fun hex_str :: "nat \<Rightarrow> byte list" where
  "hex_str n = (if n < 16 then [hex_digit n] else hex_str (n div 16) @ [hex_digit (n mod 16)])"

definition pad0 :: "nat \<Rightarrow> byte list \<Rightarrow> byte list" where
  "pad0 k s = replicate (k - length s) 0x30 @ s"

definition sprintf_x02 :: "nat \<Rightarrow> byte list" where
  "sprintf_x02 v = [0x5C, 0x78] @ pad0 2 (hex_str v) @ [0x00]"

definition sprintf_u04 :: "nat \<Rightarrow> byte list" where
  "sprintf_u04 v = [0x5C, 0x75] @ pad0 4 (hex_str v) @ [0x00]"

definition sprintf_U08 :: "nat \<Rightarrow> byte list" where
  "sprintf_U08 v = [0x5C, 0x55] @ pad0 8 (hex_str v) @ [0x00]"

text \<open>
  The destination block. \<open>mem\<close> lists the bytes stored in the block so far, from its
  first byte on, and \<open>dst\<close> is the offset of the pointer \<^verbatim>\<open>dst\<close> from the start of the
  block. \<open>store_at mem dst bytes\<close> stores \<open>bytes\<close> at the offsets \<open>dst\<close>, \<open>dst + 1\<close>, ...
  and replaces what was stored there. The encoders store without gaps: \<open>dst\<close> never lies
  beyond the bytes already stored.
\<close>

definition store_at :: "byte list \<Rightarrow> nat \<Rightarrow> byte list \<Rightarrow> byte list" where
  "store_at mem dst bytes = take dst mem @ bytes @ drop (dst + length bytes) mem"

text \<open>The zero-width space U+200B in UTF-8 (\<^verbatim>\<open>ZWSP\<close>, \<^verbatim>\<open>ZWSP_NBYTE\<close> = 3).\<close>

definition ZWSP :: "byte list" where
  "ZWSP = [0xE2, 0x80, 0x8B]"

section \<open>\<^verbatim>\<open>needs_encode_chars\<close>\<close>

text \<open>
  One pass through the body of the loop of \<^verbatim>\<open>needs_encode_chars\<close>, up to the overflow
  check: from the cursor and the flag \<^verbatim>\<open>needs\<close> to the new cursor, the new flag and
  \<^verbatim>\<open>nbyte\<close>, the number of output bytes of the unit at the cursor.
\<close>

definition needs_chars_step ::
  "classifier \<Rightarrow> byte list \<Rightarrow> bool \<Rightarrow> bool \<Rightarrow> nat \<Rightarrow> bool \<Rightarrow> nat \<times> bool \<times> int" where
  "needs_chars_step cw bs display utf8 ptr needs =
     (let nbyte = 1 + int (UTF8_TAIL_LEN (byte_at bs ptr)) in
      case scan_utf8 bs ptr of
        None \<Rightarrow> (ptr + 1, True, 4)
      | Some _ \<Rightarrow>
          if nbyte = 1 then
            (let code = byte_at bs ptr in
             case control_letter code of
               Some _ \<Rightarrow> (ptr + 1, True, 2)
             | None \<Rightarrow>
                 if \<not> isprint code then (ptr + 1, True, 4)
                 else (ptr + 1, needs, nbyte))
          else
            (case decode_utf8 bs ptr of (ptr', code) \<Rightarrow>
               if utf8 then
                 (case cw code of
                    CHARWIDTH_OTHER \<Rightarrow> (ptr', True, if code \<le> 0xFFFF then 6 else 10)
                  | CHARWIDTH_IGNORABLE \<Rightarrow>
                      if display then (ptr', True, 0) else (ptr', needs, nbyte)
                  | CHARWIDTH_EMOJI \<Rightarrow>
                      if display then (ptr', True, nbyte + 3) else (ptr', needs, nbyte)
                  | _ \<Rightarrow> (ptr', False, nbyte))
               else (ptr', True, if code \<le> 0xFFFF then 6 else 10)))"

text \<open>
  The loop, with the running total \<^verbatim>\<open>size\<close>, written \<open>sz\<close> (a C \<^verbatim>\<open>int\<close>; the check before each addition
  keeps it from overflowing, and the total is an integer here). The call of \<^verbatim>\<open>error\<close> does
  not return: the result is \<open>Inl SizeOverflow\<close>. Otherwise the function returns \<^verbatim>\<open>needs\<close> and
  stores \<^verbatim>\<open>size\<close> through \<^verbatim>\<open>sizeptr\<close>.
\<close>

function needs_chars_loop ::
  "classifier \<Rightarrow> byte list \<Rightarrow> bool \<Rightarrow> bool \<Rightarrow> nat \<Rightarrow> int \<Rightarrow> bool \<Rightarrow> error + (bool \<times> int)" where
  "needs_chars_loop cw bs display utf8 ptr sz needs =
     (if ptr = length bs then Inr (needs, sz)
      else if length bs < ptr then Inl CursorPastEnd
      else (case needs_chars_step cw bs display utf8 ptr needs of (ptr', needs', nbyte) \<Rightarrow>
        if sz > INT_MAX - nbyte then Inl SizeOverflow
        else needs_chars_loop cw bs display utf8 ptr' (sz + nbyte) needs'))"
  by pat_completeness auto
termination
  by (relation "measure (\<lambda>(cw, bs, display, utf8, ptr, sz, needs). Suc (length bs) - ptr)")
     (auto simp: needs_chars_step_def decode_utf8_def Let_def
           split: option.splits charwidth.splits if_splits)

definition needs_encode_chars ::
  "classifier \<Rightarrow> byte list \<Rightarrow> bool \<Rightarrow> bool \<Rightarrow> error + (bool \<times> int)" where
  "needs_encode_chars cw bs display utf8 = needs_chars_loop cw bs display utf8 0 0 False"

section \<open>\<^verbatim>\<open>encode_chars\<close>\<close>

text \<open>
  One pass through the body of the loop of \<^verbatim>\<open>encode_chars\<close>: the new cursor, the bytes
  that the pass stores at \<^verbatim>\<open>dst\<close>, and the number of bytes by which it advances \<^verbatim>\<open>dst\<close>.
  The copy loop \<^verbatim>\<open>while (nbyte-- > 0) *dst++ = *start++\<close> copies \<^verbatim>\<open>nbyte\<close> bytes from the
  start of the run; \<^verbatim>\<open>memcpy(dst, ZWSP, ZWSP_NBYTE)\<close> stores three more.
\<close>

definition encode_chars_step ::
  "classifier \<Rightarrow> byte list \<Rightarrow> bool \<Rightarrow> bool \<Rightarrow> nat \<Rightarrow> nat \<times> byte list \<times> nat" where
  "encode_chars_step cw bs display utf8 ptr =
     (case scan_utf8 bs ptr of
        None \<Rightarrow> (ptr + 1, sprintf_x02 (unat (byte_at bs ptr)), 4)
      | Some _ \<Rightarrow>
          (let start = ptr; nbyte = 1 + UTF8_TAIL_LEN (byte_at bs ptr) in
           if nbyte = 1 then
             (let code = byte_at bs ptr in
              case control_letter code of
                Some letter \<Rightarrow> (ptr + 1, [0x5C, letter], 2)
              | None \<Rightarrow>
                  if \<not> isprint code then (ptr + 1, sprintf_x02 (unat code), 4)
                  else (ptr + 1, [code], 1))
           else
             (case decode_utf8 bs ptr of (ptr', code) \<Rightarrow>
                if cw code = CHARWIDTH_OTHER \<or> \<not> utf8 then
                  (if code \<le> 0xFFFF then (ptr', sprintf_u04 (unat code), 6)
                   else (ptr', sprintf_U08 (unat code), 10))
                else if cw code = CHARWIDTH_IGNORABLE \<and> display then (ptr', [], 0)
                else if cw code = CHARWIDTH_EMOJI \<and> display
                  then (ptr', map (byte_at bs) [start ..< start + nbyte] @ ZWSP, nbyte + 3)
                else (ptr', map (byte_at bs) [start ..< start + nbyte], nbyte))))"

text \<open>
  The loop. The result is the content of the destination block and the final offset of
  \<^verbatim>\<open>dst\<close>.
\<close>

function encode_chars_loop ::
  "classifier \<Rightarrow> byte list \<Rightarrow> bool \<Rightarrow> bool \<Rightarrow> nat \<Rightarrow> byte list \<Rightarrow> nat
     \<Rightarrow> error + (byte list \<times> nat)" where
  "encode_chars_loop cw bs display utf8 ptr mem dst =
     (if ptr = length bs then Inr (mem, dst)
      else if length bs < ptr then Inl CursorPastEnd
      else (case encode_chars_step cw bs display utf8 ptr of (ptr', bytes, n) \<Rightarrow>
        encode_chars_loop cw bs display utf8 ptr' (store_at mem dst bytes) (dst + n)))"
  by pat_completeness auto
termination
  by (relation "measure (\<lambda>(cw, bs, display, utf8, ptr, mem, dst). Suc (length bs) - ptr)")
     (auto simp: encode_chars_step_def decode_utf8_def Let_def
           split: option.splits if_splits)

definition encode_chars ::
  "classifier \<Rightarrow> byte list \<Rightarrow> bool \<Rightarrow> bool \<Rightarrow> error + (byte list \<times> nat)" where
  "encode_chars cw bs display utf8 = encode_chars_loop cw bs display utf8 0 [] 0"

section \<open>\<^verbatim>\<open>needs_encode_bytes\<close> and \<^verbatim>\<open>encode_bytes\<close>\<close>

text \<open>
  Both loops read one byte per pass (\<^verbatim>\<open>code = *ptr++\<close>), so they recurse on the bytes that
  are left.
\<close>

definition needs_bytes_step :: "byte \<Rightarrow> bool \<Rightarrow> bool \<times> int" where
  "needs_bytes_step code needs =
     (case control_letter code of
        Some _ \<Rightarrow> (True, 2)
      | None \<Rightarrow> if code < 0x80 \<and> isprint code then (needs, 1) else (True, 4))"

fun needs_bytes_loop :: "byte list \<Rightarrow> int \<Rightarrow> bool \<Rightarrow> error + (bool \<times> int)" where
  "needs_bytes_loop [] sz needs = Inr (needs, sz)"
| "needs_bytes_loop (code # rest) sz needs =
     (case needs_bytes_step code needs of (needs', nbyte) \<Rightarrow>
        if sz > INT_MAX - nbyte then Inl SizeOverflow
        else needs_bytes_loop rest (sz + nbyte) needs')"

definition needs_encode_bytes :: "byte list \<Rightarrow> error + (bool \<times> int)" where
  "needs_encode_bytes bs = needs_bytes_loop bs 0 False"

definition encode_bytes_step :: "byte \<Rightarrow> byte list \<times> nat" where
  "encode_bytes_step code =
     (case control_letter code of
        Some letter \<Rightarrow> ([0x5C, letter], 2)
      | None \<Rightarrow>
          if code < 0x80 \<and> isprint code then ([code], 1)
          else (sprintf_x02 (unat code), 4))"

fun encode_bytes_loop :: "byte list \<Rightarrow> byte list \<Rightarrow> nat \<Rightarrow> byte list \<times> nat" where
  "encode_bytes_loop [] mem dst = (mem, dst)"
| "encode_bytes_loop (code # rest) mem dst =
     (case encode_bytes_step code of (bytes, n) \<Rightarrow>
        encode_bytes_loop rest (store_at mem dst bytes) (dst + n))"

definition encode_bytes :: "byte list \<Rightarrow> byte list \<times> nat" where
  "encode_bytes bs = encode_bytes_loop bs [] 0"

section \<open>\<^verbatim>\<open>charsxp_encode\<close> and \<^verbatim>\<open>utf8_encode\<close>\<close>

text \<open>
  The R objects that \<^verbatim>\<open>charsxp_encode\<close> handles: the missing string \<^verbatim>\<open>NA_STRING\<close>, or a
  CHARSXP with its bytes and its encoding mark (\<^verbatim>\<open>getCharCE\<close>).
\<close>

datatype cetype = CE_NATIVE | CE_UTF8 | CE_LATIN1 | CE_BYTES | CE_SYMBOL | CE_ANY

datatype sexp = NA_STRING | CHARSXP "byte list" cetype

text \<open>
  \<^verbatim>\<open>encodes_utf8\<close>; the case \<^verbatim>\<open>CE_NATIVE\<close> is compiled in only when neither \<^verbatim>\<open>_WIN32\<close> nor
  \<^verbatim>\<open>_WIN64\<close> is defined, which the first argument records.
\<close>

definition encodes_utf8 :: "bool \<Rightarrow> cetype \<Rightarrow> bool" where
  "encodes_utf8 win ce =
     (case ce of
        CE_ANY \<Rightarrow> True
      | CE_BYTES \<Rightarrow> True
      | CE_UTF8 \<Rightarrow> True
      | CE_NATIVE \<Rightarrow> \<not> win
      | _ \<Rightarrow> False)"

text \<open>
  What \<^verbatim>\<open>utf8.c\<close> takes from its host and does not define:
  \<^item> \<open>windows\<close>: whether \<^verbatim>\<open>_WIN32\<close> or \<^verbatim>\<open>_WIN64\<close> is defined;
  \<^item> \<open>translateCharUTF8\<close> (R's API): \<open>None\<close> when it returns the data pointer of the
    string itself (\<^verbatim>\<open>str2 == str\<close>), \<open>Some\<close> of the bytes of the C string it returns
    otherwise, whose length \<^verbatim>\<open>strlen\<close> then measures;
  \<^item> \<open>array_size_add\<close>: the value that \<^verbatim>\<open>corpus_array_size_add(&nbuf, 1, 0, size2)\<close> leaves
    in \<^verbatim>\<open>nbuf\<close>, from the old value and \<^verbatim>\<open>size2\<close> (\<^verbatim>\<open>corpus/src/array.h\<close> is not among the
    sources).
\<close>

record host =
  windows :: bool
  translateCharUTF8 :: "byte list \<Rightarrow> cetype \<Rightarrow> byte list option"
  array_size_add :: "int \<Rightarrow> int \<Rightarrow> int"

text \<open>
  The scratch buffer that \<^verbatim>\<open>utf8_encode\<close> shares between the elements: \<open>buf\<close> is \<open>None\<close>
  for \<^verbatim>\<open>NULL\<close> and \<open>Some n\<close> for the block that \<^verbatim>\<open>R_alloc(n, 1)\<close> returned, a block of \<open>n\<close>
  bytes; \<open>nbuf\<close> is the recorded capacity.
\<close>

record scratch =
  buf :: "int option"
  nbuf :: int

text \<open>
  The value \<^verbatim>\<open>charsxp_encode\<close> returns: its argument \<^verbatim>\<open>sx\<close> itself, or the string that
  \<^verbatim>\<open>mkCharLenCE\<close> made. \<^verbatim>\<open>mkCharLenCE(buf, size2, CE_UTF8)\<close> reads the first \<^verbatim>\<open>size2\<close> bytes
  of the block that the encoder has filled.
\<close>

datatype encoded = Same_sexp | New_charsxp "byte list" cetype

definition charsxp_encode ::
  "host \<Rightarrow> classifier \<Rightarrow> sexp \<Rightarrow> bool \<Rightarrow> bool \<Rightarrow> scratch \<Rightarrow> error + (encoded \<times> scratch)" where
  "charsxp_encode h cw sx display utf8 s =
     (case sx of
        NA_STRING \<Rightarrow> Inr (Same_sexp, s)
      | CHARSXP str0 ce0 \<Rightarrow>
          (case (if \<not> encodes_utf8 (windows h) ce0 then
                   (case translateCharUTF8 h str0 ce0 of
                      None \<Rightarrow> (str0, False, CE_UTF8)
                    | Some str2 \<Rightarrow> (takeWhile (\<lambda>b. b \<noteq> 0) str2, True, CE_UTF8))
                 else (str0, False, ce0)) of
             (str, conv, ce) \<Rightarrow>
               (case (if ce = CE_BYTES then needs_encode_bytes str
                      else needs_encode_chars cw str display utf8) of
                  Inl e \<Rightarrow> Inl e
                | Inr (needs, size2) \<Rightarrow>
                    if \<not> needs then
                      (if ce \<noteq> CE_BYTES \<and> conv then Inr (New_charsxp str CE_UTF8, s)
                       else Inr (Same_sexp, s))
                    else
                      (let s' = (if size2 > nbuf s
                                 then \<lparr>buf = Some size2,
                                       nbuf = array_size_add h (nbuf s) size2\<rparr>
                                 else s)
                       in case (if ce = CE_BYTES then Inr (encode_bytes str)
                                else encode_chars cw str display utf8) of
                            Inl e \<Rightarrow> Inl e
                          | Inr (mem, dst) \<Rightarrow>
                              Inr (New_charsxp (take (nat size2) mem) CE_UTF8, s')))))"

text \<open>
  \<^verbatim>\<open>utf8_encode\<close>: the argument is \<^verbatim>\<open>R_NilValue\<close>, a character vector, or something else.
  The loop keeps the elements stored so far in \<^verbatim>\<open>ans\<close>, the flag \<^verbatim>\<open>duped\<close> and the scratch
  buffer, which starts as \<^verbatim>\<open>buf = NULL\<close>, \<^verbatim>\<open>nbuf = 0\<close>. The result holds the final scratch
  buffer too, so that it can be inspected.
\<close>

datatype rvalue = R_NilValue | STRSXP "sexp list" | Other_value

fun utf8_encode_loop ::
  "host \<Rightarrow> classifier \<Rightarrow> bool \<Rightarrow> bool \<Rightarrow> sexp list \<Rightarrow> sexp list \<Rightarrow> bool \<Rightarrow> scratch
     \<Rightarrow> error + (sexp list \<times> bool \<times> scratch)" where
  "utf8_encode_loop h cw display utf8 [] ans duped s = Inr (ans, duped, s)"
| "utf8_encode_loop h cw display utf8 (elt # rest) ans duped s =
     (case charsxp_encode h cw elt display utf8 s of
        Inl e \<Rightarrow> Inl e
      | Inr (Same_sexp, s') \<Rightarrow>
          utf8_encode_loop h cw display utf8 rest (ans @ [elt]) duped s'
      | Inr (New_charsxp str ce, s') \<Rightarrow>
          utf8_encode_loop h cw display utf8 rest (ans @ [CHARSXP str ce]) True s')"

definition utf8_encode ::
  "host \<Rightarrow> classifier \<Rightarrow> rvalue \<Rightarrow> bool \<Rightarrow> bool \<Rightarrow> error + (rvalue \<times> bool \<times> scratch)" where
  "utf8_encode h cw sx display utf8 =
     (case sx of
        R_NilValue \<Rightarrow> Inr (R_NilValue, False, \<lparr>buf = None, nbuf = 0\<rparr>)
      | Other_value \<Rightarrow> Inl TypeMismatch
      | STRSXP elts \<Rightarrow>
          (case utf8_encode_loop h cw display utf8 elts [] False \<lparr>buf = None, nbuf = 0\<rparr> of
             Inl e \<Rightarrow> Inl e
           | Inr (ans, duped, s) \<Rightarrow> Inr (STRSXP ans, duped, s)))"

text \<open>
  Modelled from the spec: \<^verbatim>\<open>corpus_array_size_add\<close> is not among the sources, and the spec
  says of the scratch capacity only that it is grow-only, kept across the batch to avoid
  repeated allocation. This instance of it follows the growth rule of the corpus
  library's dynamic arrays: a capacity that already holds the request is kept; otherwise
  the capacity starts from at least 32 and is multiplied by 1.618 (rounded down) until it
  holds the request, and it is capped at \<open>INT_MAX\<close>.
\<close>

function array_grow :: "int \<Rightarrow> int \<Rightarrow> int" where
  "array_grow sz size_min =
     (if size_min \<le> sz \<or> sz < 32 then sz
      else array_grow ((1618 * sz) div 1000) size_min)"
  by pat_completeness auto
termination
  by (relation "measure (\<lambda>(sz, size_min). nat (size_min - sz))") auto

definition corpus_array_size_add :: "int \<Rightarrow> int \<Rightarrow> int" where
  "corpus_array_size_add sz nadd =
     (if nadd \<le> sz then sz else min INT_MAX (array_grow (max sz 32) nadd))"

text \<open>
  A host on which to run the routines on concrete strings: not Windows, a
  \<^verbatim>\<open>translateCharUTF8\<close> that hands every string back in place, and the growth rule above.
\<close>

definition example_host :: host where
  "example_host =
     \<lparr>windows = False,
      translateCharUTF8 = (\<lambda>str ce. None),
      array_size_add = corpus_array_size_add\<rparr>"

section \<open>Notions used to state the properties\<close>

text \<open>
  The output byte counts of the unit runs of a buffer, in order, as the body of the loop
  of \<^verbatim>\<open>needs_encode_chars\<close> computes them from the cursor \<open>ptr\<close> on.
\<close>

function chars_units :: "classifier \<Rightarrow> byte list \<Rightarrow> bool \<Rightarrow> bool \<Rightarrow> nat \<Rightarrow> int list" where
  "chars_units cw bs display utf8 ptr =
     (if length bs \<le> ptr then []
      else (case needs_chars_step cw bs display utf8 ptr False of (ptr', needs', nbyte) \<Rightarrow>
        nbyte # chars_units cw bs display utf8 ptr'))"
  by pat_completeness auto
termination
  by (relation "measure (\<lambda>(cw, bs, display, utf8, ptr). length bs - ptr)")
     (auto simp: needs_chars_step_def decode_utf8_def Let_def
           split: option.splits charwidth.splits if_splits)

definition bytes_units :: "byte list \<Rightarrow> int list" where
  "bytes_units bs = map (\<lambda>code. snd (needs_bytes_step code False)) bs"

text \<open>
  \<open>scans_to bs p q\<close>: starting at \<open>p\<close>, successful scans of whole unit runs lead to the
  cursor \<open>q\<close>.
\<close>

inductive scans_to :: "byte list \<Rightarrow> nat \<Rightarrow> nat \<Rightarrow> bool" where
  scans_to_refl: "scans_to bs p p"
| scans_to_step: "scan_utf8 bs p = Some q \<Longrightarrow> scans_to bs q r \<Longrightarrow> scans_to bs p r"

code_pred scans_to .

text \<open>The code points that successive decode steps read from the cursor \<open>ptr\<close> on.\<close>

function code_points :: "byte list \<Rightarrow> nat \<Rightarrow> code_point list" where
  "code_points bs ptr =
     (if length bs \<le> ptr then []
      else (case decode_utf8 bs ptr of (ptr', code) \<Rightarrow> code # code_points bs ptr'))"
  by pat_completeness auto
termination
  by (relation "measure (\<lambda>(bs, ptr). length bs - ptr)")
     (auto simp: decode_utf8_def Let_def)

text \<open>The columns of a width class: 1 for narrow and ambiguous, 2 for wide and emoji.\<close>

definition char_cols :: "charwidth \<Rightarrow> nat" where
  "char_cols w =
     (case w of
        CHARWIDTH_NARROW \<Rightarrow> 1
      | CHARWIDTH_AMBIGUOUS \<Rightarrow> 1
      | CHARWIDTH_WIDE \<Rightarrow> 2
      | CHARWIDTH_EMOJI \<Rightarrow> 2
      | _ \<Rightarrow> 0)"

text \<open>The last \<open>k\<close> hexadecimal digits of a number, most significant first, in lowercase.\<close>

fun hex_fixed :: "nat \<Rightarrow> nat \<Rightarrow> byte list" where
  "hex_fixed 0 n = []"
| "hex_fixed (Suc k) n = hex_fixed k (n div 16) @ [hex_digit (n mod 16)]"

section \<open>Auxiliary facts\<close>

text \<open>
  The recursion equations of the loops are unfolded by hand, one pass at a time.
\<close>

declare charsxp_width_loop.simps [simp del] is_valid_loop.simps [simp del]
  needs_chars_loop.simps [simp del] encode_chars_loop.simps [simp del]
  chars_units.simps [simp del] code_points.simps [simp del] hex_str.simps [simp del]
  array_grow.simps [simp del]

lemma decode_utf8_fst: "fst (decode_utf8 bs p) = p + 1 + UTF8_TAIL_LEN (byte_at bs p)"
  by (simp add: decode_utf8_def Let_def)

lemma scan_utf8_Some:
  assumes "scan_utf8 bs p = Some q"
  shows "q = p + 1 + UTF8_TAIL_LEN (byte_at bs p)" and "q \<le> length bs" and "p < length bs"
  using assms
  by (auto simp: scan_utf8_def Let_def UTF8_TAIL_LEN_def split: if_splits)

lemma hex_str_length: "0 < k \<Longrightarrow> n < 16 ^ k \<Longrightarrow> length (hex_str n) \<le> k"
proof (induction k arbitrary: n)
  case 0
  then show ?case by simp
next
  case (Suc k)
  show ?case
  proof (cases "n < 16")
    case True
    then show ?thesis by (subst hex_str.simps) simp
  next
    case False
    with Suc.prems have k: "0 < k" by (cases k) auto
    from Suc.prems have "n div 16 < 16 ^ k" by (simp add: less_mult_imp_div_less mult.commute)
    with Suc.IH k have "length (hex_str (n div 16)) \<le> k" by blast
    with False show ?thesis by (subst hex_str.simps) simp
  qed
qed

lemma hex_str_nonempty: "hex_str n \<noteq> []"
  by (subst hex_str.simps) simp

lemma pad0_length: "0 < k \<Longrightarrow> n < 16 ^ k \<Longrightarrow> length (pad0 k (hex_str n)) = k"
  using hex_str_length [of k n] by (simp add: pad0_def)

lemma sprintf_x02_length: "length (sprintf_x02 (unat (b :: byte))) = 5"
proof -
  have "unat b < 16 ^ 2" using unsigned_less [of b, where ?'a = nat] by simp
  then show ?thesis by (simp add: sprintf_x02_def pad0_length)
qed

lemma sprintf_u04_length: "(c :: code_point) \<le> 0xFFFF \<Longrightarrow> length (sprintf_u04 (unat c)) = 7"
proof -
  assume "c \<le> 0xFFFF"
  then have "unat c \<le> 0xFFFF" by (simp add: word_le_nat_alt)
  then have "unat c < 16 ^ 4" by simp
  then show ?thesis by (simp add: sprintf_u04_def pad0_length)
qed

lemma sprintf_U08_length: "length (sprintf_U08 (unat (c :: code_point))) = 11"
proof -
  have "unat c < 16 ^ 8" using unsigned_less [of c, where ?'a = nat] by simp
  then show ?thesis by (simp add: sprintf_U08_def pad0_length)
qed

lemma step_cursor_agree:
  "fst (needs_chars_step cw bs d u p n) = fst (encode_chars_step cw bs d u p)"
  by (simp add: needs_chars_step_def encode_chars_step_def Let_def
      split: option.splits charwidth.splits prod.splits)

lemma step_count_agree:
  "snd (snd (needs_chars_step cw bs d u p n)) = int (snd (snd (encode_chars_step cw bs d u p)))"
  by (simp add: needs_chars_step_def encode_chars_step_def Let_def
      split: option.splits charwidth.splits prod.splits)

lemma step_store_extent:
  "snd (snd (encode_chars_step cw bs d u p)) \<le> length (fst (snd (encode_chars_step cw bs d u p)))
   \<and> length (fst (snd (encode_chars_step cw bs d u p))) \<le> snd (snd (encode_chars_step cw bs d u p)) + 1"
  by (simp add: encode_chars_step_def Let_def sprintf_x02_length
      sprintf_u04_length sprintf_U08_length ZWSP_def
      split: option.splits prod.splits)

lemma store_at_extent:
  assumes "dst \<le> length mem" and "length mem \<le> dst + 1"
    and "n \<le> length bytes" and "length bytes \<le> n + 1"
  shows "dst + n \<le> length (store_at mem dst bytes)"
    and "length (store_at mem dst bytes) \<le> dst + n + 1"
  using assms by (auto simp: store_at_def)

lemma dst_advance_loop:
  "needs_chars_loop cw bs d u p sz n = Inr (n', sz') \<Longrightarrow>
   \<exists>mem' dst'. encode_chars_loop cw bs d u p mem dst = Inr (mem', dst') \<and>
         int dst' = int dst + (sz' - sz)"
proof (induction cw bs d u p sz n arbitrary: mem dst rule: needs_chars_loop.induct)
  case (1 cw bs d u p sz n)
  show ?case
  proof (cases "p = length bs")
    case True
    with "1.prems" show ?thesis
      by (simp add: needs_chars_loop.simps encode_chars_loop.simps)
  next
    case False
    note ne = this
    show ?thesis
    proof (cases "length bs < p")
      case True
      with ne "1.prems" show ?thesis by (simp add: needs_chars_loop.simps)
    next
      case False
      obtain p' nd nb where st: "needs_chars_step cw bs d u p n = (p', nd, nb)"
        by (cases "needs_chars_step cw bs d u p n") auto
      obtain q bytes k where es: "encode_chars_step cw bs d u p = (q, bytes, k)"
        by (cases "encode_chars_step cw bs d u p") auto
      from st es step_cursor_agree [of cw bs d u p n] have q: "q = p'" by simp
      from st es step_count_agree [of cw bs d u p n] have nb: "nb = int k" by simp
      from "1.prems" ne False st have ov: "\<not> INT_MAX - nb < sz"
        by (simp add: needs_chars_loop.simps split: if_splits)
      with "1.prems" ne False st
      have rec: "needs_chars_loop cw bs d u p' (sz + nb) nd = Inr (n', sz')"
        by (simp add: needs_chars_loop.simps)
      from "1.IH" [OF ne False st [symmetric] refl ov rec, of "store_at mem dst bytes" "dst + k"]
      obtain mem' dst' where
        "encode_chars_loop cw bs d u p' (store_at mem dst bytes) (dst + k) = Inr (mem', dst')"
        and "int dst' = int (dst + k) + (sz' - (sz + nb))" by blast
      with ne False es q nb show ?thesis
        by (simp add: encode_chars_loop.simps)
    qed
  qed
qed

lemma dst_advance_agrees:
  assumes "needs_encode_chars cw bs display utf8 = Inr (needs, needed_bytes)"
  shows "\<exists>mem dst. encode_chars cw bs display utf8 = Inr (mem, dst) \<and> int dst = needed_bytes"
  using dst_advance_loop [of cw bs display utf8 0 0 False needs needed_bytes "[]" 0] assms
  by (simp add: needs_encode_chars_def encode_chars_def)

lemma stores_extent_loop:
  "encode_chars_loop cw bs d u p mem dst = Inr (mem', dst') \<Longrightarrow>
   dst \<le> length mem \<Longrightarrow> length mem \<le> dst + 1 \<Longrightarrow>
   dst' \<le> length mem' \<and> length mem' \<le> dst' + 1"
proof (induction cw bs d u p mem dst rule: encode_chars_loop.induct)
  case (1 cw bs d u p mem dst)
  show ?case
  proof (cases "p = length bs")
    case True
    with "1.prems" show ?thesis by (simp add: encode_chars_loop.simps)
  next
    case False
    note ne = this
    show ?thesis
    proof (cases "length bs < p")
      case True
      with ne "1.prems" show ?thesis by (simp add: encode_chars_loop.simps)
    next
      case False
      obtain q bytes k where es: "encode_chars_step cw bs d u p = (q, bytes, k)"
        by (cases "encode_chars_step cw bs d u p") auto
      from step_store_extent [of cw bs d u p] es
      have k: "k \<le> length bytes" "length bytes \<le> k + 1" by simp_all
      note ext = store_at_extent [OF "1.prems"(2,3) k]
      from "1.prems"(1) ne False es
      have rec: "encode_chars_loop cw bs d u q (store_at mem dst bytes) (dst + k) = Inr (mem', dst')"
        by (simp add: encode_chars_loop.simps)
      from "1.IH" [OF ne False es [symmetric] refl rec ext] show ?thesis .
    qed
  qed
qed

lemma stores_extent:
  assumes "encode_chars cw bs display utf8 = Inr (mem, dst)"
  shows "dst \<le> length mem \<and> length mem \<le> dst + 1"
  using stores_extent_loop [of cw bs display utf8 0 "[]" 0 mem dst] assms
  by (simp add: encode_chars_def)

section \<open>Properties\<close>


lemma hex_fixed_zero: "hex_fixed k 0 = replicate k 0x30"
proof (induction k)
  case 0
  then show ?case by simp
next
  case (Suc k)
  then show ?case by (simp add: hex_digit_def replicate_append_same)
qed

lemma pad0_hex_str: "0 < k \<Longrightarrow> n < 16 ^ k \<Longrightarrow> pad0 k (hex_str n) = hex_fixed k n"
proof (induction k arbitrary: n)
  case 0
  then show ?case by simp
next
  case (Suc k)
  show ?case
  proof (cases "n < 16")
    case True
    then have "hex_str n = [hex_digit n]" by (subst hex_str.simps) simp
    with True show ?thesis by (simp add: pad0_def hex_fixed_zero)
  next
    case False
    with Suc.prems have k: "0 < k" by (cases k) auto
    from Suc.prems have lt: "n div 16 < 16 ^ k"
      by (simp add: less_mult_imp_div_less mult.commute)
    from k lt have len: "length (hex_str (n div 16)) \<le> k" by (rule hex_str_length)
    from False have "hex_str n = hex_str (n div 16) @ [hex_digit (n mod 16)]"
      by (subst hex_str.simps) simp
    moreover from len have "pad0 (Suc k) (hex_str (n div 16) @ [hex_digit (n mod 16)])
        = pad0 k (hex_str (n div 16)) @ [hex_digit (n mod 16)]"
      by (simp add: pad0_def)
    ultimately show ?thesis using Suc.IH [OF k lt] by simp
  qed
qed

lemma hex_fixed_2: "hex_fixed 2 n = [hex_digit (n div 16 mod 16), hex_digit (n mod 16)]"
proof -
  have "hex_fixed (Suc (Suc 0)) n = [hex_digit (n div 16 mod 16), hex_digit (n mod 16)]"
    by simp
  then show ?thesis by (simp only: numeral_2_eq_2)
qed

lemma hex_fixed_4:
  "hex_fixed 4 n = [hex_digit (n div 4096 mod 16), hex_digit (n div 256 mod 16),
                    hex_digit (n div 16 mod 16), hex_digit (n mod 16)]"
proof -
  have "hex_fixed (Suc (Suc (Suc (Suc 0)))) n =
      [hex_digit (n div 4096 mod 16), hex_digit (n div 256 mod 16),
       hex_digit (n div 16 mod 16), hex_digit (n mod 16)]"
    by (simp add: div_mult2_eq [symmetric])
  moreover have "(4 :: nat) = Suc (Suc (Suc (Suc 0)))" by simp
  ultimately show ?thesis by (simp only:)
qed

lemma hex_fixed_8:
  "hex_fixed 8 n = [hex_digit (n div 268435456 mod 16), hex_digit (n div 16777216 mod 16),
                    hex_digit (n div 1048576 mod 16), hex_digit (n div 65536 mod 16),
                    hex_digit (n div 4096 mod 16), hex_digit (n div 256 mod 16),
                    hex_digit (n div 16 mod 16), hex_digit (n mod 16)]"
proof -
  have "hex_fixed (Suc (Suc (Suc (Suc (Suc (Suc (Suc (Suc 0)))))))) n =
      [hex_digit (n div 268435456 mod 16), hex_digit (n div 16777216 mod 16),
       hex_digit (n div 1048576 mod 16), hex_digit (n div 65536 mod 16),
       hex_digit (n div 4096 mod 16), hex_digit (n div 256 mod 16),
       hex_digit (n div 16 mod 16), hex_digit (n mod 16)]"
    by (simp add: div_mult2_eq [symmetric])
  moreover have "(8 :: nat) = Suc (Suc (Suc (Suc (Suc (Suc (Suc (Suc 0)))))))" by simp
  ultimately show ?thesis by (simp only:)
qed

lemma scan_multibyte_code:
  assumes "scan_utf8 bs ptr = Some q" and "0x80 \<le> byte_at bs ptr"
  shows "UTF8_TAIL_LEN (byte_at bs ptr) \<noteq> 0" and "0x80 \<le> snd (decode_utf8 bs ptr)"
    and "decode_utf8 bs ptr = (q, snd (decode_utf8 bs ptr))"
proof -
  from assms(2) show t: "UTF8_TAIL_LEN (byte_at bs ptr) \<noteq> 0"
    by (auto simp: UTF8_TAIL_LEN_def)
  from assms have nl: "\<not> byte_at bs ptr < 0x80" by simp
  have "UTF8_TAIL_LEN (byte_at bs ptr) \<le> 3" by (simp add: UTF8_TAIL_LEN_def)
  with t consider "UTF8_TAIL_LEN (byte_at bs ptr) = 1" | "UTF8_TAIL_LEN (byte_at bs ptr) = 2"
    | "UTF8_TAIL_LEN (byte_at bs ptr) = 3" by linarith
  then show "0x80 \<le> snd (decode_utf8 bs ptr)"
  proof cases
    case 1
    with assms(1) nl have "\<not> snd (decode_utf8 bs ptr) < 0x80"
      by (simp add: scan_utf8_def Let_def split: if_splits)
    then show ?thesis by simp
  next
    case 2
    with assms(1) nl have "\<not> snd (decode_utf8 bs ptr) < 0x800"
      by (simp add: scan_utf8_def Let_def split: if_splits)
    then have "(0x800 :: code_point) \<le> snd (decode_utf8 bs ptr)" by simp
    moreover have "(0x80 :: code_point) \<le> 0x800" by simp
    ultimately show ?thesis by (rule order_trans [rotated])
  next
    case 3
    with assms(1) nl have "\<not> snd (decode_utf8 bs ptr) < 0x10000"
      by (simp add: scan_utf8_def Let_def split: if_splits)
    then have "(0x10000 :: code_point) \<le> snd (decode_utf8 bs ptr)" by simp
    moreover have "(0x80 :: code_point) \<le> 0x10000" by simp
    ultimately show ?thesis by (rule order_trans [rotated])
  qed
  from scan_utf8_Some(1) [OF assms(1)] decode_utf8_fst [of bs ptr]
  show "decode_utf8 bs ptr = (q, snd (decode_utf8 bs ptr))"
    by (simp add: prod_eq_iff)
qed

lemma sprintf_x02_digits:
  "sprintf_x02 (unat (b :: byte)) =
     [0x5C, 0x78, hex_digit (unat b div 16), hex_digit (unat b mod 16), 0x00]"
proof -
  have lt: "unat b < 256" using unsigned_less [of b, where ?'a = nat] by simp
  then have "unat b < 16 ^ 2" by simp
  then have "pad0 2 (hex_str (unat b)) = hex_fixed 2 (unat b)" by (simp only: pad0_hex_str)
  moreover from lt have "unat b div 16 mod 16 = unat b div 16" by simp
  ultimately show ?thesis by (simp add: sprintf_x02_def hex_fixed_2 del: hex_fixed.simps)
qed

lemma sprintf_u04_digits:
  assumes "(c :: code_point) \<le> 0xFFFF"
  shows "sprintf_u04 (unat c) =
     [0x5C, 0x75, hex_digit (unat c div 4096 mod 16), hex_digit (unat c div 256 mod 16),
      hex_digit (unat c div 16 mod 16), hex_digit (unat c mod 16), 0x00]"
proof -
  from assms have "unat c \<le> 0xFFFF" by (simp add: word_le_nat_alt)
  then have "unat c < 16 ^ 4" by simp
  then have "pad0 4 (hex_str (unat c)) = hex_fixed 4 (unat c)" by (simp only: pad0_hex_str)
  then show ?thesis by (simp add: sprintf_u04_def hex_fixed_4 del: hex_fixed.simps)
qed

lemma sprintf_U08_digits:
  "sprintf_U08 (unat (c :: code_point)) =
     [0x5C, 0x55, hex_digit (unat c div 268435456 mod 16), hex_digit (unat c div 16777216 mod 16),
      hex_digit (unat c div 1048576 mod 16), hex_digit (unat c div 65536 mod 16),
      hex_digit (unat c div 4096 mod 16), hex_digit (unat c div 256 mod 16),
      hex_digit (unat c div 16 mod 16), hex_digit (unat c mod 16), 0x00]"
proof -
  have "unat c < 16 ^ 8" using unsigned_less [of c, where ?'a = nat] by simp
  then have "pad0 8 (hex_str (unat c)) = hex_fixed 8 (unat c)" by (simp only: pad0_hex_str)
  then show ?thesis by (simp add: sprintf_U08_def hex_fixed_8 del: hex_fixed.simps)
qed

lemma loops_at_end:
  "needs_chars_loop cw bs display utf8 (length bs) sz needs = Inr (needs, sz)"
  "encode_chars_loop cw bs display utf8 (length bs) mem dst = Inr (mem, dst)"
  by (simp_all add: needs_chars_loop.simps encode_chars_loop.simps)

text \<open>
  C4 (invalid bytes). At every position inside the buffer where the scan fails, the body
  of the estimator loop moves the cursor by one byte, sets the flag and counts 4 bytes,
  and the body of the encoder loop moves the cursor by one byte, writes at \<^verbatim>\<open>dst\<close> the
  backslash, the letter x and the two lowercase hexadecimal digits of the byte at the
  cursor (which \<^verbatim>\<open>sprintf\<close> ends with a NUL) and advances \<^verbatim>\<open>dst\<close> by 4, over these four
  characters. The loops continue from there, and at the end of the buffer they return
  what they have accumulated. In particular the buffer that holds only the byte 0xFF
  needs 4 bytes and \<^verbatim>\<open>charsxp_encode\<close> turns it into the string backslash, x, f, f.
\<close>

theorem invalid_byte_escape:
  assumes "ptr < length bs" and "scan_utf8 bs ptr = None"
  shows "needs_chars_step cw bs display utf8 ptr needs = (ptr + 1, True, 4)
       \<and> encode_chars_step cw bs display utf8 ptr =
           (ptr + 1,
            [0x5C, 0x78, hex_digit (unat (bs ! ptr) div 16), hex_digit (unat (bs ! ptr) mod 16),
             0x00],
            4)
       \<and> needs_chars_loop cw bs display utf8 ptr sz needs =
           (if sz > INT_MAX - 4 then Inl SizeOverflow
            else needs_chars_loop cw bs display utf8 (ptr + 1) (sz + 4) True)
       \<and> encode_chars_loop cw bs display utf8 ptr mem dst =
           encode_chars_loop cw bs display utf8 (ptr + 1)
             (store_at mem dst
                [0x5C, 0x78, hex_digit (unat (bs ! ptr) div 16),
                 hex_digit (unat (bs ! ptr) mod 16), 0x00])
             (dst + 4)
       \<and> needs_chars_loop cw bs display utf8 (length bs) sz needs = Inr (needs, sz)
       \<and> encode_chars_loop cw bs display utf8 (length bs) mem dst = Inr (mem, dst)
       \<and> needs_encode_chars cw [0xFF] display utf8 = Inr (True, 4)
       \<and> encode_chars cw [0xFF] display utf8 = Inr ([0x5C, 0x78, 0x66, 0x66, 0x00], 4)
       \<and> (\<exists>s'. charsxp_encode h cw (CHARSXP [0xFF] CE_UTF8) display utf8 s =
                  Inr (New_charsxp [0x5C, 0x78, 0x66, 0x66] CE_UTF8, s'))"
proof -
  have ns: "needs_chars_step cw bs display utf8 ptr needs = (ptr + 1, True, 4)"
    using assms by (simp add: needs_chars_step_def)
  have es: "encode_chars_step cw bs display utf8 ptr =
      (ptr + 1,
       [0x5C, 0x78, hex_digit (unat (bs ! ptr) div 16), hex_digit (unat (bs ! ptr) mod 16), 0x00],
       4)"
    using assms by (simp add: encode_chars_step_def sprintf_x02_digits byte_at_def)
  have a: "needs_chars_loop cw bs display utf8 ptr sz needs =
           (if sz > INT_MAX - 4 then Inl SizeOverflow
            else needs_chars_loop cw bs display utf8 (ptr + 1) (sz + 4) True)"
    using assms(1) ns by (subst needs_chars_loop.simps) simp
  have b: "encode_chars_loop cw bs display utf8 ptr mem dst =
           encode_chars_loop cw bs display utf8 (ptr + 1)
             (store_at mem dst
                [0x5C, 0x78, hex_digit (unat (bs ! ptr) div 16),
                 hex_digit (unat (bs ! ptr) mod 16), 0x00])
             (dst + 4)"
    using assms(1) es by (subst encode_chars_loop.simps) simp
  have sc: "scan_utf8 [0xFF] 0 = None"
    by (simp add: scan_utf8_def byte_at_def)
  have c: "needs_encode_chars cw [0xFF] display utf8 = Inr (True, 4)"
    using sc by (simp add: needs_encode_chars_def needs_chars_loop.simps needs_chars_step_def INT_MAX_def)
  have sp: "sprintf_x02 (unat (0xFF :: byte)) = [0x5C, 0x78, 0x66, 0x66, 0x00]"
    by code_simp
  have d: "encode_chars cw [0xFF] display utf8 = Inr ([0x5C, 0x78, 0x66, 0x66, 0x00], 4)"
    using sc sp by (simp add: encode_chars_def encode_chars_loop.simps encode_chars_step_def
        byte_at_def store_at_def)
  have e: "\<exists>s'. charsxp_encode h cw (CHARSXP [0xFF] CE_UTF8) display utf8 s =
                  Inr (New_charsxp [0x5C, 0x78, 0x66, 0x66] CE_UTF8, s')"
    using c d by (simp add: charsxp_encode_def encodes_utf8_def Let_def)
  from ns es a b c d e loops_at_end [of cw bs display utf8] show ?thesis by blast
qed

theorem invalid_byte_escape_witness:
  "(1 :: nat) < length [0x41 :: byte, 0x80, 0x42] \<and> scan_utf8 [0x41, 0x80, 0x42] 1 = None
   \<and> needs_chars_step example_charwidth [0x41, 0x80, 0x42] True True 1 False = (2, True, 4)
   \<and> encode_chars_step example_charwidth [0x41, 0x80, 0x42] True True 1
       = (2, [0x5C, 0x78, 0x38, 0x30, 0x00], 4)"
proof -
  have l: "(1 :: nat) < length [0x41 :: byte, 0x80, 0x42]" by simp
  have s: "scan_utf8 [0x41, 0x80, 0x42] 1 = None" by (simp add: scan_utf8_def byte_at_def)
  from invalid_byte_escape [OF l s, of example_charwidth True True False] l s
  show ?thesis by (simp add: hex_digit_def numeral_2_eq_2 [symmetric])
qed

text \<open>
  C8 (numeric escapes when \<open>utf8\<close> is false). At a position where the scan accepts a unit
  run whose leading byte is not ASCII, the decoded code point is at least 0x80 and, with
  the flag \<open>utf8\<close> false, for every classifier and every value of \<open>display\<close>: the body of
  the estimator loop moves the cursor to the end of the run, sets the flag and counts 6
  bytes when the code point is at most 0xFFFF and 10 bytes otherwise; the body of the
  encoder loop moves the cursor to the end of the run, writes at \<^verbatim>\<open>dst\<close> backslash, u and
  the 4 lowercase hexadecimal digits of the code point and advances \<^verbatim>\<open>dst\<close> by 6, or
  writes backslash, U and its 8 lowercase hexadecimal digits and advances \<^verbatim>\<open>dst\<close> by 10
  (\<^verbatim>\<open>sprintf\<close> ends the characters with a NUL, which \<^verbatim>\<open>dst\<close> does not step over). The loops
  continue from there, and at the end of the buffer they return what they have
  accumulated. In particular U+00E9 (bytes C3 A9) needs 6 bytes and becomes backslash,
  u, 0, 0, e, 9, and U+1F600 (bytes F0 9F 98 80) needs 10 bytes and becomes backslash, U,
  0, 0, 0, 1, f, 6, 0, 0.
\<close>

theorem numeric_escape_without_utf8:
  assumes "scan_utf8 bs ptr = Some q" and "0x80 \<le> byte_at bs ptr"
    and "code = snd (decode_utf8 bs ptr)"
    and "v = unat code"
  shows "0x80 \<le> code
       \<and> needs_chars_step cw bs display False ptr needs =
           (q, True, if code \<le> 0xFFFF then 6 else 10)
       \<and> encode_chars_step cw bs display False ptr =
           (if code \<le> 0xFFFF
            then (q, [0x5C, 0x75,
                      hex_digit (v div 4096 mod 16), hex_digit (v div 256 mod 16),
                      hex_digit (v div 16 mod 16), hex_digit (v mod 16), 0x00], 6)
            else (q, [0x5C, 0x55,
                      hex_digit (v div 268435456 mod 16), hex_digit (v div 16777216 mod 16),
                      hex_digit (v div 1048576 mod 16), hex_digit (v div 65536 mod 16),
                      hex_digit (v div 4096 mod 16), hex_digit (v div 256 mod 16),
                      hex_digit (v div 16 mod 16), hex_digit (v mod 16), 0x00], 10))
       \<and> needs_chars_loop cw bs display False ptr sz needs =
           (if sz > INT_MAX - (if code \<le> 0xFFFF then 6 else 10) then Inl SizeOverflow
            else needs_chars_loop cw bs display False q
                   (sz + (if code \<le> 0xFFFF then 6 else 10)) True)
       \<and> encode_chars_loop cw bs display False ptr mem dst =
           encode_chars_loop cw bs display False q
             (store_at mem dst (fst (snd (encode_chars_step cw bs display False ptr))))
             (dst + (if code \<le> 0xFFFF then 6 else 10))
       \<and> needs_chars_loop cw bs display False (length bs) sz needs = Inr (needs, sz)
       \<and> encode_chars_loop cw bs display False (length bs) mem dst = Inr (mem, dst)
       \<and> needs_encode_chars cw [0xC3, 0xA9] display False = Inr (True, 6)
       \<and> encode_chars cw [0xC3, 0xA9] display False
           = Inr ([0x5C, 0x75, 0x30, 0x30, 0x65, 0x39, 0x00], 6)
       \<and> (\<exists>s'. charsxp_encode h cw (CHARSXP [0xC3, 0xA9] CE_UTF8) display False s =
                  Inr (New_charsxp [0x5C, 0x75, 0x30, 0x30, 0x65, 0x39] CE_UTF8, s'))
       \<and> needs_encode_chars cw [0xF0, 0x9F, 0x98, 0x80] display False = Inr (True, 10)
       \<and> encode_chars cw [0xF0, 0x9F, 0x98, 0x80] display False
           = Inr ([0x5C, 0x55, 0x30, 0x30, 0x30, 0x31, 0x66, 0x36, 0x30, 0x30, 0x00], 10)
       \<and> (\<exists>s'. charsxp_encode h cw (CHARSXP [0xF0, 0x9F, 0x98, 0x80] CE_UTF8) display False s =
                  Inr (New_charsxp [0x5C, 0x55, 0x30, 0x30, 0x30, 0x31, 0x66, 0x36, 0x30, 0x30]
                         CE_UTF8, s'))"
proof -
  note mb = scan_multibyte_code [OF assms(1,2)]
  from mb(3) assms(3) have dq: "decode_utf8 bs ptr = (q, code)" by simp
  from scan_utf8_Some [OF assms(1)] have in_buf: "ptr < length bs" "ptr \<noteq> length bs" by simp_all
  have ns: "needs_chars_step cw bs display False ptr needs =
      (q, True, if code \<le> 0xFFFF then 6 else 10)"
    using assms(1) mb(1) dq by (simp add: needs_chars_step_def)
  have es: "encode_chars_step cw bs display False ptr =
           (if code \<le> 0xFFFF
            then (q, [0x5C, 0x75,
                      hex_digit (v div 4096 mod 16), hex_digit (v div 256 mod 16),
                      hex_digit (v div 16 mod 16), hex_digit (v mod 16), 0x00], 6)
            else (q, [0x5C, 0x55,
                      hex_digit (v div 268435456 mod 16), hex_digit (v div 16777216 mod 16),
                      hex_digit (v div 1048576 mod 16), hex_digit (v div 65536 mod 16),
                      hex_digit (v div 4096 mod 16), hex_digit (v div 256 mod 16),
                      hex_digit (v div 16 mod 16), hex_digit (v mod 16), 0x00], 10))"
    using assms(1,4) mb(1) dq
    by (simp add: encode_chars_step_def sprintf_u04_digits sprintf_U08_digits)
  have a: "0x80 \<le> code" using mb(2) assms(3) by simp
  have b: "needs_chars_loop cw bs display False ptr sz needs =
           (if sz > INT_MAX - (if code \<le> 0xFFFF then 6 else 10) then Inl SizeOverflow
            else needs_chars_loop cw bs display False q
                   (sz + (if code \<le> 0xFFFF then 6 else 10)) True)"
    using in_buf ns by (subst needs_chars_loop.simps) simp
  obtain bytes where est: "encode_chars_step cw bs display False ptr =
      (q, bytes, if code \<le> 0xFFFF then 6 else 10)"
    using es by (cases "code \<le> 0xFFFF") simp_all
  have c: "encode_chars_loop cw bs display False ptr mem dst =
           encode_chars_loop cw bs display False q
             (store_at mem dst (fst (snd (encode_chars_step cw bs display False ptr))))
             (dst + (if code \<le> 0xFFFF then 6 else 10))"
    using in_buf est by (subst encode_chars_loop.simps) simp
  have sc: "scan_utf8 [0xC3, 0xA9] 0 = Some 2" by code_simp
  have dc: "decode_utf8 [0xC3, 0xA9] 0 = (2, 0xE9)" by code_simp
  have tl: "UTF8_TAIL_LEN (byte_at [0xC3, 0xA9] 0) = 1" by code_simp
  have sp: "sprintf_u04 (unat (0xE9 :: code_point)) = [0x5C, 0x75, 0x30, 0x30, 0x65, 0x39, 0x00]"
    by code_simp
  have d: "needs_encode_chars cw [0xC3, 0xA9] display False = Inr (True, 6)"
    using sc dc tl
    by (simp add: needs_encode_chars_def needs_chars_loop.simps needs_chars_step_def INT_MAX_def)
  have e: "encode_chars cw [0xC3, 0xA9] display False
      = Inr ([0x5C, 0x75, 0x30, 0x30, 0x65, 0x39, 0x00], 6)"
    using sc dc tl sp
    by (simp add: encode_chars_def encode_chars_loop.simps encode_chars_step_def store_at_def)
  have f: "\<exists>s'. charsxp_encode h cw (CHARSXP [0xC3, 0xA9] CE_UTF8) display False s =
                  Inr (New_charsxp [0x5C, 0x75, 0x30, 0x30, 0x65, 0x39] CE_UTF8, s')"
    using d e by (simp add: charsxp_encode_def encodes_utf8_def Let_def)
  have sc4: "scan_utf8 [0xF0, 0x9F, 0x98, 0x80] 0 = Some 4" by code_simp
  have dc4: "decode_utf8 [0xF0, 0x9F, 0x98, 0x80] 0 = (4, 0x1F600)" by code_simp
  have tl4: "UTF8_TAIL_LEN (byte_at [0xF0, 0x9F, 0x98, 0x80] 0) = 3" by code_simp
  have sp4: "sprintf_U08 (unat (0x1F600 :: code_point))
      = [0x5C, 0x55, 0x30, 0x30, 0x30, 0x31, 0x66, 0x36, 0x30, 0x30, 0x00]"
    using sprintf_U08_digits [of "0x1F600"] by (simp add: hex_digit_def)
  have g: "needs_encode_chars cw [0xF0, 0x9F, 0x98, 0x80] display False = Inr (True, 10)"
    using sc4 dc4 tl4
    by (simp add: needs_encode_chars_def needs_chars_loop.simps needs_chars_step_def INT_MAX_def)
  have i: "encode_chars cw [0xF0, 0x9F, 0x98, 0x80] display False
      = Inr ([0x5C, 0x55, 0x30, 0x30, 0x30, 0x31, 0x66, 0x36, 0x30, 0x30, 0x00], 10)"
    using sc4 dc4 tl4 sp4
    by (simp add: encode_chars_def encode_chars_loop.simps encode_chars_step_def store_at_def)
  have j: "\<exists>s'. charsxp_encode h cw (CHARSXP [0xF0, 0x9F, 0x98, 0x80] CE_UTF8) display False s =
                  Inr (New_charsxp [0x5C, 0x55, 0x30, 0x30, 0x30, 0x31, 0x66, 0x36, 0x30, 0x30]
                         CE_UTF8, s')"
    using g i by (simp add: charsxp_encode_def encodes_utf8_def Let_def)
  from a ns es b c loops_at_end [of cw bs display False] d e f g i j show ?thesis by blast
qed

theorem numeric_escape_without_utf8_witness:
  "scan_utf8 [0x41, 0xF0, 0x9F, 0x98, 0x80] 1 = Some 5
   \<and> (0x80 :: byte) \<le> byte_at [0x41, 0xF0, 0x9F, 0x98, 0x80] 1
   \<and> (0x1F600 :: code_point) = snd (decode_utf8 [0x41, 0xF0, 0x9F, 0x98, 0x80] 1)
   \<and> needs_chars_step example_charwidth [0x41, 0xF0, 0x9F, 0x98, 0x80] True False 1 False
       = (5, True, 10)
   \<and> encode_chars_step example_charwidth [0x41, 0xF0, 0x9F, 0x98, 0x80] True False 1
       = (5, [0x5C, 0x55, 0x30, 0x30, 0x30, 0x31, 0x66, 0x36, 0x30, 0x30, 0x00], 10)"
proof -
  have s: "scan_utf8 [0x41, 0xF0, 0x9F, 0x98, 0x80] 1 = Some 5" by code_simp
  have l: "(0x80 :: byte) \<le> byte_at [0x41, 0xF0, 0x9F, 0x98, 0x80] 1" by code_simp
  have c: "(0x1F600 :: code_point) = snd (decode_utf8 [0x41, 0xF0, 0x9F, 0x98, 0x80] 1)"
    by code_simp
  have v: "(128512 :: nat) = unat (0x1F600 :: code_point)" by simp
  from numeric_escape_without_utf8 [OF s l c v, of example_charwidth True False] s l c
  show ?thesis by (simp add: hex_digit_def)
qed

lemma scans_to_le: "scans_to bs p q \<Longrightarrow> p \<le> length bs \<Longrightarrow> q \<le> length bs"
  by (induction rule: scans_to.induct) (auto dest: scan_utf8_Some(2))

lemma is_valid_loop_clean:
  "scans_to bs p q \<Longrightarrow> q = length bs \<Longrightarrow> is_valid_loop bs p = (True, None)"
proof (induction rule: scans_to.induct)
  case (scans_to_refl bs p)
  then show ?case by (simp add: is_valid_loop.simps)
next
  case (scans_to_step bs p q r)
  from scan_utf8_Some(3) [OF scans_to_step.hyps(1)] have "p \<noteq> length bs" by simp
  with scans_to_step show ?case by (subst is_valid_loop.simps) simp
qed

lemma is_valid_loop_bad:
  "scans_to bs p k \<Longrightarrow> k < length bs \<Longrightarrow> scan_utf8 bs k = None \<Longrightarrow>
   is_valid_loop bs p = (False, Some k)"
proof (induction rule: scans_to.induct)
  case (scans_to_refl bs p)
  then show ?case by (subst is_valid_loop.simps) simp
next
  case (scans_to_step bs p q r)
  from scan_utf8_Some(3) [OF scans_to_step.hyps(1)] have "p \<noteq> length bs" by simp
  with scans_to_step show ?case by (subst is_valid_loop.simps) simp
qed

lemma is_valid_loop_cases:
  "p \<le> length bs \<Longrightarrow>
   (is_valid_loop bs p = (True, None) \<and> scans_to bs p (length bs)) \<or>
   (\<exists>k. is_valid_loop bs p = (False, Some k) \<and> scans_to bs p k \<and> k < length bs
        \<and> scan_utf8 bs k = None)"
proof (induction bs p rule: is_valid_loop.induct)
  case (1 bs ptr)
  show ?case
  proof (cases "ptr = length bs")
    case True
    then show ?thesis by (simp add: is_valid_loop.simps scans_to_refl)
  next
    case False
    with "1.prems" have lt: "ptr < length bs" by simp
    show ?thesis
    proof (cases "scan_utf8 bs ptr")
      case None
      with False lt have "is_valid_loop bs ptr = (False, Some ptr)"
        by (subst is_valid_loop.simps) simp
      with None lt show ?thesis by (auto intro: scans_to_refl)
    next
      case (Some q)
      from scan_utf8_Some(2) [OF Some] have ql: "q \<le> length bs" .
      from False Some have eq: "is_valid_loop bs ptr = is_valid_loop bs q"
        by (subst is_valid_loop.simps) simp
      from "1.IH" [OF False Some ql] show ?thesis
        unfolding eq using Some by (auto intro: scans_to_step)
    qed
  qed
qed

text \<open>
  C6 (validity and the reported offset). For every byte buffer, \<^verbatim>\<open>is_valid\<close> returns true
  exactly when successive scans from the start consume the whole buffer; it stores an
  offset exactly when it returns false; and it returns false with the offset \<open>k\<close> exactly
  when the scans from the start succeed up to the cursor \<open>k\<close>, which lies inside the
  buffer, and the scan at \<open>k\<close> fails: the offset is the index at which the first invalid
  unit run starts.
\<close>

theorem is_valid_first_invalid_run:
  "(fst (is_valid bs) \<longleftrightarrow> scans_to bs 0 (length bs))
   \<and> (fst (is_valid bs) \<longrightarrow> snd (is_valid bs) = None)
   \<and> (\<not> fst (is_valid bs) \<longrightarrow> (\<exists>k. snd (is_valid bs) = Some k))
   \<and> (\<forall>k. is_valid bs = (False, Some k) \<longleftrightarrow>
          scans_to bs 0 k \<and> k < length bs \<and> scan_utf8 bs k = None)"
proof -
  have a: "is_valid bs = (True, None)" if "scans_to bs 0 (length bs)"
    unfolding is_valid_def using that by (rule is_valid_loop_clean) simp
  have b: "is_valid bs = (False, Some k)"
    if "scans_to bs 0 k" and "k < length bs" and "scan_utf8 bs k = None" for k
    unfolding is_valid_def using that by (rule is_valid_loop_bad)
  have "(is_valid bs = (True, None) \<and> scans_to bs 0 (length bs)) \<or>
   (\<exists>k. is_valid bs = (False, Some k) \<and> scans_to bs 0 k \<and> k < length bs
        \<and> scan_utf8 bs k = None)"
    unfolding is_valid_def by (rule is_valid_loop_cases) simp
  then show ?thesis
  proof (elim disjE conjE exE)
    assume v: "is_valid bs = (True, None)" and s: "scans_to bs 0 (length bs)"
    have "\<not> (scans_to bs 0 k \<and> k < length bs \<and> scan_utf8 bs k = None)" for k
      using b [of k] v by auto
    with v s show ?thesis by simp
  next
    fix k0
    assume v: "is_valid bs = (False, Some k0)" and s: "scans_to bs 0 k0"
      and l: "k0 < length bs" and n: "scan_utf8 bs k0 = None"
    have ns: "\<not> scans_to bs 0 (length bs)" using a v by auto
    have "(k0 = k) = (scans_to bs 0 k \<and> k < length bs \<and> scan_utf8 bs k = None)" for k
      using b [of k] v s l n by auto
    with v ns s l n show ?thesis by auto
  qed
qed

theorem is_valid_first_invalid_run_witness:
  "is_valid [0x41, 0xC3, 0xA9, 0xE4, 0xB8, 0x42] = (False, Some 3)
   \<and> scans_to [0x41, 0xC3, 0xA9, 0xE4, 0xB8, 0x42] 0 3
   \<and> scan_utf8 [0x41, 0xC3, 0xA9, 0xE4, 0xB8, 0x42] 3 = None
   \<and> \<not> scans_to [0x41, 0xC3, 0xA9, 0xE4, 0xB8, 0x42] 0 (length [0x41 :: byte, 0xC3, 0xA9, 0xE4, 0xB8, 0x42])"
proof -
  have v: "is_valid [0x41, 0xC3, 0xA9, 0xE4, 0xB8, 0x42] = (False, Some 3)" by code_simp
  from is_valid_first_invalid_run [of "[0x41, 0xC3, 0xA9, 0xE4, 0xB8, 0x42]"] v
  show ?thesis by simp blast
qed

lemma is_valid_scans: "fst (is_valid bs) \<Longrightarrow> scans_to bs 0 (length bs)"
  using is_valid_loop_cases [of 0 bs] by (auto simp: is_valid_def)

lemma charsxp_width_loop_valid:
  "scans_to bs p q \<Longrightarrow> q = length bs \<Longrightarrow>
   charsxp_width_loop cw bs p w =
     Inr (w + of_nat (sum_list (map (\<lambda>c. char_cols (cw c)) (code_points bs p))))"
proof (induction arbitrary: w rule: scans_to.induct)
  case (scans_to_refl bs p)
  then show ?case by (simp add: charsxp_width_loop.simps code_points.simps)
next
  case (scans_to_step bs p q r)
  note sc = scan_utf8_Some [OF scans_to_step.hyps(1)]
  from sc(1) decode_utf8_fst [of bs p] obtain code where dc: "decode_utf8 bs p = (q, code)"
    by (cases "decode_utf8 bs p") simp
  from sc(3) dc have cp: "code_points bs p = code # code_points bs q"
    by (subst code_points.simps) simp
  from sc(3) have ne: "p \<noteq> length bs" "\<not> length bs < p" by simp_all
  have ih: "charsxp_width_loop cw bs q w' =
     Inr (w' + of_nat (sum_list (map (\<lambda>c. char_cols (cw c)) (code_points bs q))))" for w'
    using scans_to_step.IH scans_to_step.prems by simp
  show ?case
    unfolding cp
    by (subst charsxp_width_loop.simps, cases "cw code")
       (simp_all add: ne dc ih char_cols_def)
qed

text \<open>
  C7 (width). For every classifier and every buffer that \<^verbatim>\<open>is_valid\<close> accepts,
  \<^verbatim>\<open>charsxp_width\<close> returns the sum, over the code points decoded from the buffer, of 1 for
  NARROW and AMBIGUOUS, 2 for WIDE and EMOJI and 0 for every other class. The returned C
  \<^verbatim>\<open>int\<close> is that sum as a 32-bit word, and reads as the sum itself whenever the sum is at
  most \<open>INT_MAX\<close>. The width of the empty buffer is 0.
\<close>

theorem charsxp_width_sum:
  assumes "fst (is_valid bs)"
    and "columns = sum_list (map (\<lambda>c. char_cols (cw c)) (code_points bs 0))"
  shows "charsxp_width cw bs = Inr (of_nat columns)
       \<and> (int columns \<le> INT_MAX \<longrightarrow> sint (of_nat columns :: 32 word) = int columns)
       \<and> charsxp_width cw [] = Inr 0"
proof -
  from assms(1) have "scans_to bs 0 (length bs)" by (rule is_valid_scans)
  then have a: "charsxp_width cw bs = Inr (of_nat columns)"
    unfolding charsxp_width_def assms(2)
    using charsxp_width_loop_valid [of bs 0 "length bs" cw 0] by simp
  have b: "sint (of_nat columns :: 32 word) = int columns" if "int columns \<le> INT_MAX"
  proof -
    from that have "int columns < 2 ^ 31" by (simp add: INT_MAX_def)
    moreover have "- (2 ^ 31) \<le> int columns" by simp
    ultimately have "signed_take_bit 31 (int columns) = int columns"
      by (simp add: signed_take_bit_int_eq_self)
    then show ?thesis by (simp add: signed_of_nat)
  qed
  have c: "charsxp_width cw [] = Inr 0"
    by (simp add: charsxp_width_def charsxp_width_loop.simps)
  from a b c show ?thesis by blast
qed

theorem charsxp_width_sum_witness:
  "fst (is_valid [0x41, 0xE4, 0xB8, 0xAD, 0xF0, 0x9F, 0x98, 0x80, 0xE2, 0x80, 0x8B])
   \<and> (5 :: nat) = sum_list (map (\<lambda>c. char_cols (example_charwidth c))
           (code_points [0x41, 0xE4, 0xB8, 0xAD, 0xF0, 0x9F, 0x98, 0x80, 0xE2, 0x80, 0x8B] 0))
   \<and> charsxp_width example_charwidth
        [0x41, 0xE4, 0xB8, 0xAD, 0xF0, 0x9F, 0x98, 0x80, 0xE2, 0x80, 0x8B] = Inr 5
   \<and> sint (5 :: 32 word) = 5"
proof -
  have v: "fst (is_valid [0x41, 0xE4, 0xB8, 0xAD, 0xF0, 0x9F, 0x98, 0x80, 0xE2, 0x80, 0x8B])"
    by code_simp
  have t: "(5 :: nat) = sum_list (map (\<lambda>c. char_cols (example_charwidth c))
           (code_points [0x41, 0xE4, 0xB8, 0xAD, 0xF0, 0x9F, 0x98, 0x80, 0xE2, 0x80, 0x8B] 0))"
    by code_simp
  from charsxp_width_sum [OF v t] v t show ?thesis by (simp add: INT_MAX_def)
qed

text \<open>
  C10 (termination of the width calculator), as stated, fails: in the buffer that holds
  only the byte 0xE4, the leading byte of a three-byte run, the decode step moves the
  cursor from 0 to 3, past the end at 1, so the test \<^verbatim>\<open>ptr != end\<close> never stops the loop
  at the end of the buffer.
\<close>

theorem charsxp_width_overruns:
  "fst (decode_utf8 [0xE4] 0) = 3 \<and> charsxp_width example_charwidth [0xE4] = Inl CursorPastEnd"
  by code_simp

text \<open>
  C10, amended. For every classifier and every buffer that \<^verbatim>\<open>is_valid\<close> accepts, the loop
  of \<^verbatim>\<open>charsxp_width\<close> stops with its cursor exactly at the end of the buffer and returns a
  width.
\<close>

theorem charsxp_width_returns_on_valid:
  assumes "fst (is_valid bs)"
  shows "\<exists>width. charsxp_width cw bs = Inr width"
proof -
  from assms have "scans_to bs 0 (length bs)" by (rule is_valid_scans)
  then show ?thesis
    unfolding charsxp_width_def
    using charsxp_width_loop_valid [of bs 0 "length bs" cw 0] by simp
qed

theorem charsxp_width_returns_on_valid_witness:
  "fst (is_valid [0x41, 0xE4, 0xB8, 0xAD])
   \<and> (\<exists>width. charsxp_width example_charwidth [0x41, 0xE4, 0xB8, 0xAD] = Inr width)"
proof -
  have v: "fst (is_valid [0x41, 0xE4, 0xB8, 0xAD])" by code_simp
  from charsxp_width_returns_on_valid [OF v] v show ?thesis by blast
qed

lemma needs_chars_step_flag_free:
  "fst (needs_chars_step cw bs d u p n) = fst (needs_chars_step cw bs d u p False)"
  "snd (snd (needs_chars_step cw bs d u p n)) = snd (snd (needs_chars_step cw bs d u p False))"
  by (simp_all add: step_cursor_agree step_count_agree)

lemma needs_chars_step_nonneg: "0 \<le> snd (snd (needs_chars_step cw bs d u p n))"
  by (simp add: step_count_agree)

lemma needs_chars_step_cursor:
  assumes "p < length bs"
  shows "p < fst (needs_chars_step cw bs d u p n)"
    and "fst (needs_chars_step cw bs d u p n) \<le> length bs"
proof -
  show "p < fst (needs_chars_step cw bs d u p n)"
    by (simp add: step_cursor_agree encode_chars_step_def decode_utf8_def Let_def
        split: option.splits)
  show "fst (needs_chars_step cw bs d u p n) \<le> length bs"
  proof (cases "scan_utf8 bs p")
    case None
    with assms show ?thesis by (simp add: step_cursor_agree encode_chars_step_def)
  next
    case (Some q)
    from scan_utf8_Some(1,2) [OF Some] decode_utf8_fst [of bs p]
    have "fst (decode_utf8 bs p) \<le> length bs" by simp
    with Some assms show ?thesis
      by (auto simp: step_cursor_agree encode_chars_step_def Let_def
          split: prod.splits option.splits if_splits)
  qed
qed

lemma chars_units_nonneg: "\<forall>x \<in> set (chars_units cw bs d u p). 0 \<le> x"
proof (induction cw bs d u p rule: chars_units.induct)
  case (1 cw bs d u p)
  show ?case
  proof (cases "length bs \<le> p")
    case True
    then show ?thesis by (simp add: chars_units.simps)
  next
    case False
    obtain p' nd nb where st: "needs_chars_step cw bs d u p False = (p', nd, nb)"
      by (cases "needs_chars_step cw bs d u p False") auto
    from needs_chars_step_nonneg [of cw bs d u p False] st have "0 \<le> nb" by simp
    moreover from "1.IH" [OF False st [symmetric] refl]
    have "\<forall>x \<in> set (chars_units cw bs d u p'). 0 \<le> x" .
    ultimately show ?thesis using False st by (subst chars_units.simps) simp
  qed
qed

lemma needs_chars_loop_total:
  "p \<le> length bs \<Longrightarrow> 0 \<le> sz \<Longrightarrow> sz \<le> INT_MAX \<Longrightarrow>
   (INT_MAX < sz + sum_list (chars_units cw bs d u p) \<longrightarrow>
      needs_chars_loop cw bs d u p sz n = Inl SizeOverflow) \<and>
   (sz + sum_list (chars_units cw bs d u p) \<le> INT_MAX \<longrightarrow>
      (\<exists>n'. needs_chars_loop cw bs d u p sz n = Inr (n', sz + sum_list (chars_units cw bs d u p))))"
proof (induction cw bs d u p sz n rule: needs_chars_loop.induct)
  case (1 cw bs d u p sz n)
  show ?case
  proof (cases "p = length bs")
    case True
    with "1.prems" show ?thesis by (simp add: needs_chars_loop.simps chars_units.simps)
  next
    case False
    with "1.prems" have lt: "p < length bs" and nlt: "\<not> length bs < p" and nle: "\<not> length bs \<le> p"
      by simp_all
    obtain p' nd nb where st: "needs_chars_step cw bs d u p n = (p', nd, nb)"
      by (cases "needs_chars_step cw bs d u p n") auto
    obtain nd0 where st0: "needs_chars_step cw bs d u p False = (p', nd0, nb)"
      using needs_chars_step_flag_free [of cw bs d u p n] st
      by (cases "needs_chars_step cw bs d u p False") auto
    from needs_chars_step_cursor(2) [OF lt, of cw d u n] st have p'l: "p' \<le> length bs" by simp
    from needs_chars_step_nonneg [of cw bs d u p n] st have nb0: "0 \<le> nb" by simp
    have cu: "chars_units cw bs d u p = nb # chars_units cw bs d u p'"
      using nle st0 by (subst chars_units.simps) simp
    have rest0: "0 \<le> sum_list (chars_units cw bs d u p')"
      using chars_units_nonneg [of cw bs d u p'] by (simp add: sum_list_nonneg)
    show ?thesis
    proof (cases "INT_MAX - nb < sz")
      case True
      with False nlt st have "needs_chars_loop cw bs d u p sz n = Inl SizeOverflow"
        by (subst needs_chars_loop.simps) simp
      with True rest0 show ?thesis by (simp add: cu)
    next
      case ok: False
      with False nlt st
      have eq: "needs_chars_loop cw bs d u p sz n = needs_chars_loop cw bs d u p' (sz + nb) nd"
        by (subst needs_chars_loop.simps) simp
      from "1.prems"(2) nb0 have "0 \<le> sz + nb" by simp
      moreover from ok have "sz + nb \<le> INT_MAX" by simp
      ultimately have "0 \<le> sz + nb" "sz + nb \<le> INT_MAX" by simp_all
      from "1.IH" [OF False nlt st [symmetric] refl ok p'l this]
      show ?thesis unfolding eq cu by (simp add: add.assoc)
    qed
  qed
qed

lemma bytes_units_nonneg: "\<forall>x \<in> set (bytes_units bs). 0 \<le> x"
  by (auto simp: bytes_units_def needs_bytes_step_def split: option.splits)

lemma needs_bytes_step_flag_free:
  "snd (needs_bytes_step code n) = snd (needs_bytes_step code False)"
  by (simp add: needs_bytes_step_def split: option.splits)

lemma needs_bytes_loop_total:
  "0 \<le> sz \<Longrightarrow> sz \<le> INT_MAX \<Longrightarrow>
   (INT_MAX < sz + sum_list (bytes_units bs) \<longrightarrow>
      needs_bytes_loop bs sz n = Inl SizeOverflow) \<and>
   (sz + sum_list (bytes_units bs) \<le> INT_MAX \<longrightarrow>
      (\<exists>n'. needs_bytes_loop bs sz n = Inr (n', sz + sum_list (bytes_units bs))))"
proof (induction bs arbitrary: sz n)
  case Nil
  then show ?case by (simp add: bytes_units_def)
next
  case (Cons code rest)
  obtain nd nb where st: "needs_bytes_step code n = (nd, nb)"
    by (cases "needs_bytes_step code n") auto
  from needs_bytes_step_flag_free [of code n] st
  have nb: "snd (needs_bytes_step code False) = nb" by simp
  have nb0: "0 \<le> nb" using bytes_units_nonneg [of "[code]"] nb by (simp add: bytes_units_def)
  have bu: "bytes_units (code # rest) = nb # bytes_units rest"
    using nb by (simp add: bytes_units_def)
  have rest0: "0 \<le> sum_list (bytes_units rest)"
    using bytes_units_nonneg [of rest] by (simp add: sum_list_nonneg)
  show ?case
  proof (cases "INT_MAX - nb < sz")
    case True
    with st have "needs_bytes_loop (code # rest) sz n = Inl SizeOverflow" by simp
    with True rest0 show ?thesis by (simp add: bu)
  next
    case False
    with st have eq: "needs_bytes_loop (code # rest) sz n = needs_bytes_loop rest (sz + nb) nd"
      by simp
    from Cons.prems nb0 have "0 \<le> sz + nb" by simp
    moreover from False have "sz + nb \<le> INT_MAX" by simp
    ultimately have "0 \<le> sz + nb" "sz + nb \<le> INT_MAX" by simp_all
    from Cons.IH [OF this, of nd] show ?thesis unfolding eq bu by (simp add: add.assoc)
  qed
qed

lemma running_total_exceeds:
  fixes us :: "int list"
  assumes "\<forall>x \<in> set us. 0 \<le> x" and "0 \<le> M"
  shows "(\<exists>k < length us. M < sum_list (take k us) + us ! k) \<longleftrightarrow> M < sum_list us"
proof
  assume "\<exists>k < length us. M < sum_list (take k us) + us ! k"
  then obtain k where k: "k < length us" and ex: "M < sum_list (take k us) + us ! k" by blast
  from k have "us = take k us @ us ! k # drop (Suc k) us" by (rule id_take_nth_drop)
  then have "sum_list us = sum_list (take k us) + us ! k + sum_list (drop (Suc k) us)"
    by (metis add.assoc sum_list.Cons sum_list_append)
  moreover have "0 \<le> sum_list (drop (Suc k) us)"
    using assms(1) by (auto intro!: sum_list_nonneg dest: in_set_dropD)
  ultimately show "M < sum_list us" using ex by simp
next
  assume gt: "M < sum_list us"
  with assms(2) have ne: "us \<noteq> []" by auto
  then have "us = butlast us @ [last us]" by simp
  then have "sum_list us = sum_list (butlast us) + last us"
    by (metis add.right_neutral sum_list.Cons sum_list.Nil sum_list_append)
  with gt ne have "M < sum_list (take (length us - 1) us) + us ! (length us - 1)"
    by (simp add: butlast_conv_take last_conv_nth)
  moreover from ne have "length us - 1 < length us" by simp
  ultimately show "\<exists>k < length us. M < sum_list (take k us) + us ! k" by blast
qed


lemma bytes_units_replicate_ctrl: "bytes_units (replicate n 0x02) = replicate n 4"
  by (simp add: bytes_units_def needs_bytes_step_def control_letter_def isprint_def)

lemma last_unit_replicate:
  "0 < n \<Longrightarrow> sum_list (take (n - 1) (replicate n (4 :: int))) + replicate n 4 ! (n - 1)
     = 4 * int n"
proof -
  assume "0 < n"
  then obtain m where n: "n = Suc m" by (cases n) auto
  have "take m (replicate (Suc m) (4 :: int)) = replicate m 4"
    by (simp only: take_replicate) simp
  moreover have "replicate (Suc m) (4 :: int) ! m = 4"
    by (rule nth_replicate) simp
  ultimately show ?thesis by (simp add: n sum_list_replicate del: replicate.simps)
qed

text \<open>
  C5 (size overflow). Let the units of a buffer be the output byte counts of its unit
  runs, in order. \<^verbatim>\<open>needs_encode_chars\<close> signals \<open>SizeOverflow\<close> exactly when, for some unit,
  the sum of the units before it plus that unit exceeds 2^31 - 1; when it does not signal
  the overflow it returns the exact sum of all the units, which then lies between 0 and
  2^31 - 1, so nothing wraps or is cut. The same holds for \<^verbatim>\<open>needs_encode_bytes\<close>. The
  overflow is the error result of the whole call, not a value for the element.
\<close>

theorem size_overflow_exact:
  "(needs_encode_chars cw bs display utf8 = Inl SizeOverflow \<longleftrightarrow>
      (\<exists>k < length (chars_units cw bs display utf8 0).
         INT_MAX < sum_list (take k (chars_units cw bs display utf8 0))
                   + chars_units cw bs display utf8 0 ! k))
   \<and> (needs_encode_chars cw bs display utf8 \<noteq> Inl SizeOverflow \<longrightarrow>
        (\<exists>needs. needs_encode_chars cw bs display utf8
                    = Inr (needs, sum_list (chars_units cw bs display utf8 0)))
        \<and> 0 \<le> sum_list (chars_units cw bs display utf8 0)
        \<and> sum_list (chars_units cw bs display utf8 0) \<le> INT_MAX)
   \<and> (needs_encode_bytes bs = Inl SizeOverflow \<longleftrightarrow>
        (\<exists>k < length (bytes_units bs).
           INT_MAX < sum_list (take k (bytes_units bs)) + bytes_units bs ! k))
   \<and> (needs_encode_bytes bs \<noteq> Inl SizeOverflow \<longrightarrow>
        (\<exists>needs. needs_encode_bytes bs = Inr (needs, sum_list (bytes_units bs)))
        \<and> 0 \<le> sum_list (bytes_units bs)
        \<and> sum_list (bytes_units bs) \<le> INT_MAX)"
proof -
  have m: "0 \<le> INT_MAX" by (simp add: INT_MAX_def)
  let ?cu = "chars_units cw bs display utf8 0"
  let ?bu = "bytes_units bs"
  have cn: "0 \<le> sum_list ?cu"
    using chars_units_nonneg [of cw bs display utf8 0] by (simp add: sum_list_nonneg)
  have bn: "0 \<le> sum_list ?bu"
    using bytes_units_nonneg [of bs] by (simp add: sum_list_nonneg)
  have ce: "(\<exists>k < length ?cu. INT_MAX < sum_list (take k ?cu) + ?cu ! k) \<longleftrightarrow> INT_MAX < sum_list ?cu"
    using chars_units_nonneg [of cw bs display utf8 0] m by (rule running_total_exceeds)
  have be: "(\<exists>k < length ?bu. INT_MAX < sum_list (take k ?bu) + ?bu ! k) \<longleftrightarrow> INT_MAX < sum_list ?bu"
    using bytes_units_nonneg [of bs] m by (rule running_total_exceeds)
  have cl: "(INT_MAX < sum_list ?cu \<longrightarrow> needs_encode_chars cw bs display utf8 = Inl SizeOverflow) \<and>
      (sum_list ?cu \<le> INT_MAX \<longrightarrow>
        (\<exists>n'. needs_encode_chars cw bs display utf8 = Inr (n', sum_list ?cu)))"
    using needs_chars_loop_total [of 0 bs 0 cw display utf8 False] m
    by (simp add: needs_encode_chars_def)
  have bl: "(INT_MAX < sum_list ?bu \<longrightarrow> needs_encode_bytes bs = Inl SizeOverflow) \<and>
      (sum_list ?bu \<le> INT_MAX \<longrightarrow> (\<exists>n'. needs_encode_bytes bs = Inr (n', sum_list ?bu)))"
    using needs_bytes_loop_total [of 0 bs False] m
    by (simp add: needs_encode_bytes_def)
  have c1: "needs_encode_chars cw bs display utf8 = Inl SizeOverflow \<longleftrightarrow> INT_MAX < sum_list ?cu"
    using cl by (cases "INT_MAX < sum_list ?cu") auto
  have b1: "needs_encode_bytes bs = Inl SizeOverflow \<longleftrightarrow> INT_MAX < sum_list ?bu"
    using bl by (cases "INT_MAX < sum_list ?bu") auto
  have c2: "needs_encode_chars cw bs display utf8 \<noteq> Inl SizeOverflow \<longrightarrow>
        (\<exists>needs. needs_encode_chars cw bs display utf8 = Inr (needs, sum_list ?cu))
        \<and> 0 \<le> sum_list ?cu \<and> sum_list ?cu \<le> INT_MAX"
    using cl cn by (cases "INT_MAX < sum_list ?cu") auto
  have b2: "needs_encode_bytes bs \<noteq> Inl SizeOverflow \<longrightarrow>
        (\<exists>needs. needs_encode_bytes bs = Inr (needs, sum_list ?bu))
        \<and> 0 \<le> sum_list ?bu \<and> sum_list ?bu \<le> INT_MAX"
    using bl bn by (cases "INT_MAX < sum_list ?bu") auto
  from c1 c2 b1 b2 ce be show ?thesis by simp
qed


theorem size_overflow_exact_witness:
  "needs_encode_chars example_charwidth [0x41, 0x0A] True True \<noteq> Inl SizeOverflow
   \<and> needs_encode_chars example_charwidth [0x41, 0x0A] True True = Inr (True, 3)
   \<and> sum_list (chars_units example_charwidth [0x41, 0x0A] True True 0) = 3
   \<and> needs_encode_bytes [0x41, 0x0A] \<noteq> Inl SizeOverflow
   \<and> needs_encode_bytes [0x41, 0x0A] = Inr (True, 3)
   \<and> sum_list (bytes_units [0x41, 0x0A]) = 3
   \<and> needs_encode_bytes (replicate 536870912 0x02) = Inl SizeOverflow"
proof -
  have c: "needs_encode_chars example_charwidth [0x41, 0x0A] True True = Inr (True, 3)"
    by code_simp
  have b: "needs_encode_bytes [0x41, 0x0A] = Inr (True, 3)"
    by code_simp
  have "(0 :: nat) < 536870912" by simp
  from last_unit_replicate [OF this]
  have "INT_MAX < sum_list (take (536870912 - 1) (bytes_units (replicate 536870912 0x02)))
                  + bytes_units (replicate 536870912 0x02) ! (536870912 - 1)"
    by (simp only: bytes_units_replicate_ctrl INT_MAX_def)
  moreover have "(536870912 :: nat) - 1 < length (bytes_units (replicate 536870912 0x02))"
    by (simp only: bytes_units_replicate_ctrl length_replicate)
  ultimately have ex: "\<exists>k < length (bytes_units (replicate 536870912 0x02)).
      INT_MAX < sum_list (take k (bytes_units (replicate 536870912 0x02)))
                + bytes_units (replicate 536870912 0x02) ! k"
    by blast
  from size_overflow_exact [of example_charwidth "[0x41, 0x0A]" True True] c b
  have s: "sum_list (chars_units example_charwidth [0x41, 0x0A] True True 0) = 3"
    "sum_list (bytes_units [0x41, 0x0A]) = 3"
    by simp_all
  from size_overflow_exact [of example_charwidth "replicate 536870912 0x02" True True] ex
  have o: "needs_encode_bytes (replicate 536870912 0x02) = Inl SizeOverflow"
    by blast
  from c b s o show ?thesis by simp
qed

lemma isprint_ascii:
  assumes "isprint b"
  shows "b < 0x80" and "control_letter b = None"
proof -
  from assms have "b \<le> 0x7E" by (simp add: isprint_def)
  moreover have "(0x7E :: byte) < 0x80" by simp
  ultimately show "b < 0x80" by (rule le_less_trans)
  from assms have "0x20 \<le> b" by (simp add: isprint_def)
  then show "control_letter b = None" by (auto simp: control_letter_def)
qed

lemma needs_chars_step_printable:
  assumes "p < length bs" and "isprint (bs ! p)"
  shows "needs_chars_step cw bs d u p n = (p + 1, n, 1)"
proof -
  from assms(1) have b: "byte_at bs p = bs ! p" by (simp add: byte_at_def)
  note a = isprint_ascii [OF assms(2)]
  from assms(1) a(1) b have "scan_utf8 bs p = Some (p + 1)" by (simp add: scan_utf8_def)
  moreover from a(1) have "UTF8_TAIL_LEN (bs ! p) = 0" by (simp add: UTF8_TAIL_LEN_def)
  ultimately show ?thesis using a(2) assms(2) b by (simp add: needs_chars_step_def)
qed

lemma needs_chars_loop_printable:
  "k = length bs - p \<Longrightarrow> p \<le> length bs \<Longrightarrow> \<forall>i. p \<le> i \<and> i < length bs \<longrightarrow> isprint (bs ! i) \<Longrightarrow>
   sz + int (length bs - p) \<le> INT_MAX \<Longrightarrow>
   needs_chars_loop cw bs d u p sz n = Inr (n, sz + int (length bs - p))"
proof (induction k arbitrary: p sz)
  case 0
  then show ?case by (simp add: needs_chars_loop.simps)
next
  case (Suc k)
  then have lt: "p < length bs" and ne: "p \<noteq> length bs" and nlt: "\<not> length bs < p" by simp_all
  from Suc.prems(3) lt have "isprint (bs ! p)" by simp
  with lt have st: "needs_chars_step cw bs d u p n = (p + 1, n, 1)"
    by (rule needs_chars_step_printable)
  from Suc.prems(4) lt have ok: "\<not> INT_MAX - 1 < sz" by simp
  with ne nlt st have eq: "needs_chars_loop cw bs d u p sz n = needs_chars_loop cw bs d u (p + 1) (sz + 1) n"
    by (subst needs_chars_loop.simps) simp
  have "needs_chars_loop cw bs d u (p + 1) (sz + 1) n = Inr (n, sz + 1 + int (length bs - (p + 1)))"
    using Suc.prems lt by (intro Suc.IH) auto
  with lt show ?case unfolding eq by (simp add: of_nat_diff)
qed

lemma needs_bytes_loop_printable:
  "\<forall>b \<in> set bs. isprint b \<Longrightarrow> sz + int (length bs) \<le> INT_MAX \<Longrightarrow>
   needs_bytes_loop bs sz n = Inr (n, sz + int (length bs))"
proof (induction bs arbitrary: sz)
  case Nil
  then show ?case by simp
next
  case (Cons b bs)
  from Cons.prems(1) have "isprint b" by simp
  from this isprint_ascii [OF this] have "needs_bytes_step b n = (n, 1)"
    by (simp add: needs_bytes_step_def)
  moreover from Cons.prems(2) have "\<not> INT_MAX - 1 < sz" by simp
  moreover have "needs_bytes_loop bs (sz + 1) n = Inr (n, sz + 1 + int (length bs))"
    using Cons.prems by (intro Cons.IH) auto
  ultimately show ?case by simp
qed

text \<open>
  C3 (printable ASCII is left alone). Take a string whose bytes are all printable ASCII,
  none of them a control character, of a length that fits the \<^verbatim>\<open>int\<close> in which
  \<^verbatim>\<open>charsxp_encode\<close> holds the size, and whose bytes reach the estimator in place: its
  encoding is one that \<^verbatim>\<open>encodes_utf8\<close> accepts, or \<^verbatim>\<open>translateCharUTF8\<close> returns the data of
  the string itself, as R does for an ASCII string. Then both estimators report that no
  transformation is needed, with the size equal to the length, and \<^verbatim>\<open>charsxp_encode\<close>
  returns its argument itself and leaves the scratch buffer as it was: nothing is
  allocated and nothing is copied.
\<close>

theorem printable_ascii_unchanged:
  assumes "\<forall>b \<in> set str. b < 0x80 \<and> isprint b \<and> control_letter b = None"
    and "int (length str) \<le> INT_MAX"
    and "encodes_utf8 (windows h) ce \<or> translateCharUTF8 h str ce = None"
  shows "needs_encode_chars cw str display utf8 = Inr (False, int (length str))
       \<and> needs_encode_bytes str = Inr (False, int (length str))
       \<and> charsxp_encode h cw (CHARSXP str ce) display utf8 s = Inr (Same_sexp, s)"
proof -
  from assms(1) have pr: "\<forall>b \<in> set str. isprint b" by simp
  then have "\<forall>i. 0 \<le> i \<and> i < length str \<longrightarrow> isprint (str ! i)" by simp
  with assms(2) have a: "needs_encode_chars cw str display utf8 = Inr (False, int (length str))"
    unfolding needs_encode_chars_def
    using needs_chars_loop_printable [of "length str" str 0 0 cw display utf8 False] by simp
  from pr assms(2) have b: "needs_encode_bytes str = Inr (False, int (length str))"
    unfolding needs_encode_bytes_def
    using needs_bytes_loop_printable [of str 0 False] by simp
  have c: "charsxp_encode h cw (CHARSXP str ce) display utf8 s = Inr (Same_sexp, s)"
  proof (cases "encodes_utf8 (windows h) ce")
    case True
    with a b show ?thesis by (simp add: charsxp_encode_def)
  next
    case False
    with assms(3) have "translateCharUTF8 h str ce = None" by simp
    with False a show ?thesis by (simp add: charsxp_encode_def)
  qed
  from a b c show ?thesis by blast
qed

theorem printable_ascii_unchanged_witness:
  "list_all (\<lambda>b. b < (0x80 :: byte) \<and> isprint b \<and> control_letter b = None) [0x48, 0x69, 0x20, 0x7E]
   \<and> int (length [0x48 :: byte, 0x69, 0x20, 0x7E]) \<le> INT_MAX
   \<and> (encodes_utf8 (windows example_host) CE_LATIN1
        \<or> translateCharUTF8 example_host [0x48, 0x69, 0x20, 0x7E] CE_LATIN1 = None)
   \<and> needs_encode_chars example_charwidth [0x48, 0x69, 0x20, 0x7E] True True = Inr (False, 4)
   \<and> charsxp_encode example_host example_charwidth (CHARSXP [0x48, 0x69, 0x20, 0x7E] CE_LATIN1)
        True True \<lparr>buf = Some 2, nbuf = 32\<rparr> = Inr (Same_sexp, \<lparr>buf = Some 2, nbuf = 32\<rparr>)"
proof -
  have p: "\<forall>b \<in> set [0x48, 0x69, 0x20, 0x7E]. b < (0x80 :: byte) \<and> isprint b \<and> control_letter b = None"
    by (simp add: isprint_def control_letter_def)
  have l: "int (length [0x48 :: byte, 0x69, 0x20, 0x7E]) \<le> INT_MAX"
    by (simp add: INT_MAX_def)
  have t: "encodes_utf8 (windows example_host) CE_LATIN1
        \<or> translateCharUTF8 example_host [0x48, 0x69, 0x20, 0x7E] CE_LATIN1 = None"
    by (simp add: example_host_def)
  from printable_ascii_unchanged [OF p l t, of example_charwidth True True "\<lparr>buf = Some 2, nbuf = 32\<rparr>"]
    p l t
  show ?thesis by (simp add: list_all_iff)
qed

lemma needs_reset_by_plain_run:
  assumes "scan_utf8 bs p = Some q" and "0x80 \<le> byte_at bs p"
    and "cw (snd (decode_utf8 bs p)) \<in> {CHARWIDTH_NARROW, CHARWIDTH_AMBIGUOUS, CHARWIDTH_WIDE}"
  shows "fst (snd (needs_chars_step cw bs display True p True)) = False"
proof -
  note mb = scan_multibyte_code [OF assms(1,2)]
  obtain code where dq: "decode_utf8 bs p = (q, code)" using mb(3) by blast
  with assms(3) have "cw code \<in> {CHARWIDTH_NARROW, CHARWIDTH_AMBIGUOUS, CHARWIDTH_WIDE}"
    by simp
  with assms(1) mb(1) dq show ?thesis by (auto simp: needs_chars_step_def)
qed

text \<open>
  C2 (a control character sets the flag) is not what the code does when \<open>utf8\<close> is true.
  In \<^verbatim>\<open>needs_encode_chars\<close> the \<^verbatim>\<open>default\<close> branch of the switch on the width class assigns
  \<^verbatim>\<open>needs = 0\<close>, so a narrow, ambiguous or wide multi-byte run clears the flag that an
  earlier unit has set. On the line feed followed by U+4E2D (bytes 0A E4 B8 AD) the
  estimator returns the flag false with the size 5, for both values of \<open>display\<close>, and
  \<^verbatim>\<open>charsxp_encode\<close> returns the string as it is, with the line feed not escaped. With the
  two units in the other order the flag is true, and \<^verbatim>\<open>needs_encode_bytes\<close> on the same
  bytes keeps the flag.
\<close>

theorem needs_flag_lost_after_control:
  "needs_encode_chars example_charwidth [0x0A, 0xE4, 0xB8, 0xAD] False True = Inr (False, 5)
   \<and> needs_encode_chars example_charwidth [0x0A, 0xE4, 0xB8, 0xAD] True True = Inr (False, 5)
   \<and> charsxp_encode example_host example_charwidth (CHARSXP [0x0A, 0xE4, 0xB8, 0xAD] CE_UTF8)
        True True \<lparr>buf = None, nbuf = 0\<rparr> = Inr (Same_sexp, \<lparr>buf = None, nbuf = 0\<rparr>)
   \<and> needs_encode_chars example_charwidth [0xE4, 0xB8, 0xAD, 0x0A] True True = Inr (True, 5)
   \<and> needs_encode_bytes [0x0A, 0xE4, 0xB8, 0xAD] = Inr (True, 14)"
  by code_simp

lemma scratch_after_allocation:
  assumes "charsxp_encode h cw sx display utf8 s = Inr (r, s')" and "s' \<noteq> s"
  shows "\<exists>size2. nbuf s < size2 \<and> buf s' = Some size2
            \<and> nbuf s' = array_size_add h (nbuf s) size2"
  using assms
  by (auto simp: charsxp_encode_def Let_def
      split: sexp.splits if_splits option.splits sum.splits prod.splits)

text \<open>
  C9 (the recorded capacity does not exceed the allocation) is not what the code does.
  When \<^verbatim>\<open>charsxp_encode\<close> replaces the scratch buffer it allocates \<^verbatim>\<open>size2\<close> bytes and
  records the capacity that \<^verbatim>\<open>corpus_array_size_add\<close> computes. With the growth rule of the
  corpus library, on the batch of the two strings LF and LF LF LF: the first element
  allocates 2 bytes and records the capacity 32; the second needs 6 bytes, which is not
  more than 32, so the buffer is kept and \<^verbatim>\<open>encode_chars\<close> writes 6 bytes into the block of
  2 bytes.
\<close>

theorem scratch_capacity_exceeds_allocation:
  "charsxp_encode example_host example_charwidth (CHARSXP [0x0A] CE_UTF8) True True
       \<lparr>buf = None, nbuf = 0\<rparr>
     = Inr (New_charsxp [0x5C, 0x6E] CE_UTF8, \<lparr>buf = Some 2, nbuf = 32\<rparr>)
   \<and> charsxp_encode example_host example_charwidth (CHARSXP [0x0A, 0x0A, 0x0A] CE_UTF8) True True
       \<lparr>buf = Some 2, nbuf = 32\<rparr>
     = Inr (New_charsxp [0x5C, 0x6E, 0x5C, 0x6E, 0x5C, 0x6E] CE_UTF8, \<lparr>buf = Some 2, nbuf = 32\<rparr>)
   \<and> utf8_encode example_host example_charwidth
       (STRSXP [CHARSXP [0x0A] CE_UTF8, CHARSXP [0x0A, 0x0A, 0x0A] CE_UTF8]) True True
     = Inr (STRSXP [CHARSXP [0x5C, 0x6E] CE_UTF8,
                    CHARSXP [0x5C, 0x6E, 0x5C, 0x6E, 0x5C, 0x6E] CE_UTF8],
            True, \<lparr>buf = Some 2, nbuf = 32\<rparr>)"
  by code_simp

end
